theory Spec2Isabelle
  imports Main "HOL-Library.Word"
begin

section \<open>Strings of UTF-16 code units\<close>

text \<open>
  A JavaScript string is a sequence of 16-bit code units. \<open>String.fromCharCode\<close> takes its
  argument modulo \<open>2^16\<close>, which is the wrap-around of \<open>16 word\<close>. \<open>ch\<close> and \<open>str\<close> write
  code units and strings from character literals.
\<close>

type_synonym code_unit = "16 word"
type_synonym jsstring = "code_unit list"

definition ch :: "char \<Rightarrow> code_unit" where
  "ch c = of_char c"

definition str :: "string \<Rightarrow> jsstring" where
  "str s = map ch s"

definition BACKSLASH :: code_unit where
  "BACKSLASH = 0x5C"

definition QUOTE :: code_unit where
  "QUOTE = 0x22"

text \<open>
  The white space of the regular expression \<open>\s\<close>, which is also the white space that
  the string-to-number conversion and \<open>parseInt\<close> trim: the ECMAScript WhiteSpace and
  LineTerminator code points.
\<close>

definition isWhiteSpace :: "code_unit \<Rightarrow> bool" where
  "isWhiteSpace c \<longleftrightarrow>
     c = 0x09 \<or> c = 0x0A \<or> c = 0x0B \<or> c = 0x0C \<or> c = 0x0D \<or> c = 0x20 \<or> c = 0xA0 \<or>
     c = 0x1680 \<or> (0x2000 \<le> c \<and> c \<le> 0x200A) \<or> c = 0x2028 \<or> c = 0x2029 \<or>
     c = 0x202F \<or> c = 0x205F \<or> c = 0x3000 \<or> c = 0xFEFF"

definition isDecimalDigit :: "code_unit \<Rightarrow> bool" where
  "isDecimalDigit c \<longleftrightarrow> 0x30 \<le> c \<and> c \<le> 0x39"

definition isHexDigit :: "code_unit \<Rightarrow> bool" where
  "isHexDigit c \<longleftrightarrow>
     isDecimalDigit c \<or> (0x41 \<le> c \<and> c \<le> 0x46) \<or> (0x61 \<le> c \<and> c \<le> 0x66)"

definition isOctalDigit :: "code_unit \<Rightarrow> bool" where
  "isOctalDigit c \<longleftrightarrow> 0x30 \<le> c \<and> c \<le> 0x37"

definition isBinaryDigit :: "code_unit \<Rightarrow> bool" where
  "isBinaryDigit c \<longleftrightarrow> c = 0x30 \<or> c = 0x31"

subsection \<open>Numbers as text\<close>

text \<open>
  An integer of magnitude at most \<open>2^53\<close> is a Number, and \<open>Number.prototype.toString\<close>
  prints it as its decimal digits, with a leading minus sign when negative.
\<close>

fun digitsOf :: "nat \<Rightarrow> jsstring" where
  "digitsOf n = (if n < 10 then [0x30 + of_nat n]
                 else digitsOf (n div 10) @ [0x30 + of_nat (n mod 10)])"

declare digitsOf.simps [simp del]

definition numberToString :: "int \<Rightarrow> jsstring" where
  "numberToString n = (if n < 0 then ch CHR ''-'' # digitsOf (nat (- n)) else digitsOf (nat n))"

text \<open>
  Any other finite Number is given by the shortest decimal that denotes it, \<open>m * 10^e\<close>
  with \<open>m\<close> not a multiple of ten: \<open>0.5\<close> is \<open>5 * 10^-1\<close> and \<open>1e21\<close> is \<open>1 * 10^21\<close>. In the
  words of \<open>Number::toString\<close>, \<open>s\<close> is the magnitude of \<open>m\<close>, \<open>k\<close> the number of its digits
  and \<open>n = k + e\<close> the position of the decimal point. The digits are followed by zeros
  when \<open>k \<le> n \<le> 21\<close>; the point stands inside them when \<open>0 < n \<le> 21\<close>; they come after
  \<open>0.\<close> and \<open>-n\<close> zeros when \<open>-6 < n \<le> 0\<close>; otherwise the exponent \<open>n - 1\<close> is written
  after \<open>e\<close>, with its sign.
\<close>

definition decimalToString :: "int \<Rightarrow> int \<Rightarrow> jsstring" where
  "decimalToString m e =
     (let ds = digitsOf (nat \<bar>m\<bar>);
          k = int (length ds);
          n = k + e;
          expo = ch CHR ''e'' # (if 0 < n - 1 then ch CHR ''+'' else ch CHR ''-'')
                   # digitsOf (nat \<bar>n - 1\<bar>);
          body =
            (if k \<le> n \<and> n \<le> 21 then ds @ replicate (nat (n - k)) (ch CHR ''0'')
             else if 0 < n \<and> n \<le> 21 then take (nat n) ds @ ch CHR ''.'' # drop (nat n) ds
             else if - 6 < n \<and> n \<le> 0
             then ch CHR ''0'' # ch CHR ''.'' # replicate (nat (- n)) (ch CHR ''0'') @ ds
             else if k = 1 then ds @ expo
             else hd ds # ch CHR ''.'' # tl ds @ expo)
      in if m < 0 then ch CHR ''-'' # body else body)"

fun digitsValue :: "int \<Rightarrow> jsstring \<Rightarrow> int" where
  "digitsValue acc [] = acc"
| "digitsValue acc (c # cs) = digitsValue (10 * acc + (uint c - 0x30)) cs"

subsection \<open>The string-to-number conversion\<close>

text \<open>
  \<open>isNaN(+s)\<close> for a string \<open>s\<close> asks whether \<open>s\<close>, trimmed of white space, is empty or
  derives from the StringNumericLiteral grammar of ECMAScript: a signed decimal literal
  (\<open>Infinity\<close>, digits with an optional fraction and exponent, or a fraction alone), or an
  unsigned binary, octal or hexadecimal integer literal with its prefix.
\<close>

definition trim :: "jsstring \<Rightarrow> jsstring" where
  "trim s = rev (dropWhile isWhiteSpace (rev (dropWhile isWhiteSpace s)))"

definition signedInteger :: "jsstring \<Rightarrow> bool" where
  "signedInteger s =
     (case s of
        [] \<Rightarrow> False
      | c # t \<Rightarrow> if c = ch CHR ''+'' \<or> c = ch CHR ''-''
                 then t \<noteq> [] \<and> list_all isDecimalDigit t
                 else list_all isDecimalDigit s)"

definition exponentPartOpt :: "jsstring \<Rightarrow> bool" where
  "exponentPartOpt s =
     (case s of
        [] \<Rightarrow> True
      | c # t \<Rightarrow> (c = ch CHR ''e'' \<or> c = ch CHR ''E'') \<and> signedInteger t)"

definition strUnsignedDecimalLiteral :: "jsstring \<Rightarrow> bool" where
  "strUnsignedDecimalLiteral s =
     (s = str ''Infinity'' \<or>
      (let ip = takeWhile isDecimalDigit s; r = dropWhile isDecimalDigit s in
       if ip \<noteq> [] then
         (case r of
            [] \<Rightarrow> True
          | c # t \<Rightarrow> if c = ch CHR ''.'' then exponentPartOpt (dropWhile isDecimalDigit t)
                     else exponentPartOpt r)
       else
         (case r of
            [] \<Rightarrow> False
          | c # t \<Rightarrow> c = ch CHR ''.'' \<and> takeWhile isDecimalDigit t \<noteq> [] \<and>
                     exponentPartOpt (dropWhile isDecimalDigit t))))"

definition strDecimalLiteral :: "jsstring \<Rightarrow> bool" where
  "strDecimalLiteral s =
     (case s of
        [] \<Rightarrow> False
      | c # t \<Rightarrow> if c = ch CHR ''+'' \<or> c = ch CHR ''-'' then strUnsignedDecimalLiteral t
                 else strUnsignedDecimalLiteral s)"

definition nonDecimalIntegerLiteral :: "jsstring \<Rightarrow> bool" where
  "nonDecimalIntegerLiteral s =
     (case s of
        z # x # t \<Rightarrow>
          z = ch CHR ''0'' \<and> t \<noteq> [] \<and>
          (((x = ch CHR ''x'' \<or> x = ch CHR ''X'') \<and> list_all isHexDigit t) \<or>
           ((x = ch CHR ''o'' \<or> x = ch CHR ''O'') \<and> list_all isOctalDigit t) \<or>
           ((x = ch CHR ''b'' \<or> x = ch CHR ''B'') \<and> list_all isBinaryDigit t))
      | _ \<Rightarrow> False)"

definition stringIsNumeric :: "jsstring \<Rightarrow> bool" where
  "stringIsNumeric s =
     (let t = trim s in t = [] \<or> strDecimalLiteral t \<or> nonDecimalIntegerLiteral t)"

section \<open>The encoder\<close>

text \<open>
  The values \<open>encode\<close> receives. \<open>VNum\<close> is an integral number, \<open>VDec m e\<close> the finite
  number whose shortest decimal is \<open>m * 10^e\<close>, and \<open>VNaN\<close> the number \<open>NaN\<close>. An object
  carries the text that the \<open>toString()\<close> it inherits returns (\<open>[object Object]\<close> for a
  plain object) and its own enumerable properties, in the order of \<open>Object.entries\<close>. A
  function carries the text its \<open>toString()\<close> returns (its source text) and the value a
  call with no arguments returns. A \<open>Date\<close> carries the text its \<open>toString()\<close> returns.
\<close>

datatype jsvalue =
    VNull
  | VUndefined
  | VNum int
  | VDec int int
  | VNaN
  | VStr jsstring
  | VBool bool
  | VArr "jsvalue list"
  | VObj jsstring "(jsstring \<times> jsvalue) list"
  | VFun jsstring jsvalue
  | VDate jsstring

datatype jstype = TUndefined | TObject | TBoolean | TNumber | TString | TFunction

fun typeof :: "jsvalue \<Rightarrow> jstype" where
  "typeof VNull = TObject"
| "typeof VUndefined = TUndefined"
| "typeof (VNum n) = TNumber"
| "typeof (VDec m e) = TNumber"
| "typeof VNaN = TNumber"
| "typeof (VStr s) = TString"
| "typeof (VBool b) = TBoolean"
| "typeof (VArr vs) = TObject"
| "typeof (VObj ts es) = TObject"
| "typeof (VFun src r) = TFunction"
| "typeof (VDate s) = TObject"

fun isArray :: "jsvalue \<Rightarrow> bool" where
  "isArray (VArr vs) = True"
| "isArray v = False"

text \<open>The values that are objects of the language; the others are primitive.\<close>

fun isObject :: "jsvalue \<Rightarrow> bool" where
  "isObject (VArr vs) = True"
| "isObject (VObj ts es) = True"
| "isObject (VFun src r) = True"
| "isObject (VDate s) = True"
| "isObject v = False"

definition plainObject :: "(jsstring \<times> jsvalue) list \<Rightarrow> jsvalue" where
  "plainObject es = VObj (str ''[object Object]'') es"

fun joinComma :: "jsstring list \<Rightarrow> jsstring" where
  "joinComma [] = []"
| "joinComma [s] = s"
| "joinComma (s # t) = s @ ch CHR '','' # joinComma t"

text \<open>
  \<open>InvalidInput\<close> and \<open>UnexpectedValue\<close> are the two errors the encoder throws itself.
  \<open>TypeError\<close> is the error of the language when an object has no method that converts
  it to a primitive value, or when a property called as a method is not a function.
\<close>

datatype encode_error = InvalidInput | UnexpectedValue | TypeError

subsection \<open>Conversions\<close>

text \<open>The conversion of a primitive value to a string. It is not asked of an object.\<close>

fun primitiveToString :: "jsvalue \<Rightarrow> jsstring" where
  "primitiveToString VNull = str ''null''"
| "primitiveToString VUndefined = str ''undefined''"
| "primitiveToString (VNum n) = numberToString n"
| "primitiveToString (VDec m e) = decimalToString m e"
| "primitiveToString VNaN = str ''NaN''"
| "primitiveToString (VStr s) = s"
| "primitiveToString (VBool b) = (if b then str ''true'' else str ''false'')"
| "primitiveToString v = []"

text \<open>
  \<open>!isNaN(+p)\<close> for a primitive \<open>p\<close>: numbers other than \<open>NaN\<close>, booleans and \<open>null\<close> are
  numbers, \<open>undefined\<close> converts to \<open>NaN\<close>, a string converts by its text. It is not asked
  of an object.
\<close>

fun primitiveNumeric :: "jsvalue \<Rightarrow> bool" where
  "primitiveNumeric VNull = True"
| "primitiveNumeric VUndefined = False"
| "primitiveNumeric (VNum n) = True"
| "primitiveNumeric (VDec m e) = True"
| "primitiveNumeric VNaN = False"
| "primitiveNumeric (VStr s) = stringIsNumeric s"
| "primitiveNumeric (VBool b) = True"
| "primitiveNumeric v = False"

text \<open>
  The conversion of an object with properties to a primitive value looks up \<open>valueOf\<close>
  and \<open>toString\<close>, in the order the hint gives, calls the first that is a function, and
  takes its result when that is primitive; with no such method it throws. An own
  property stands before the inherited method of the same name. \<open>methodResult\<close> is the
  value the method \<open>name\<close> returns, or \<open>None\<close> when the property is not a function: the
  inherited \<open>valueOf\<close> returns the object itself, the inherited \<open>toString\<close> the text the
  object carries.
\<close>

datatype hint = PreferNumber | PreferString

definition methodResult ::
  "jsstring \<Rightarrow> jsstring \<Rightarrow> (jsstring \<times> jsvalue) list \<Rightarrow> jsvalue option" where
  "methodResult name ts es =
     (case map_of es name of
        None \<Rightarrow> if name = str ''toString'' then Some (VStr ts) else Some (VObj ts es)
      | Some f \<Rightarrow> (case f of VFun src r \<Rightarrow> Some r | _ \<Rightarrow> None))"

fun firstPrimitive :: "jsvalue option list \<Rightarrow> encode_error + jsvalue" where
  "firstPrimitive [] = Inl TypeError"
| "firstPrimitive (None # rs) = firstPrimitive rs"
| "firstPrimitive (Some r # rs) = (if isObject r then firstPrimitive rs else Inr r)"

definition toPrimitive ::
  "hint \<Rightarrow> jsstring \<Rightarrow> (jsstring \<times> jsvalue) list \<Rightarrow> encode_error + jsvalue" where
  "toPrimitive h ts es =
     firstPrimitive (map (\<lambda>name. methodResult name ts es)
       (case h of
          PreferNumber \<Rightarrow> [str ''valueOf'', str ''toString'']
        | PreferString \<Rightarrow> [str ''toString'', str ''valueOf'']))"

text \<open>
  The conversion to a string. \<open>+=\<close> on a string converts its right operand with the
  hint \<open>PreferNumber\<close> (a \<open>Date\<close> apart, which gives its text under every hint used here);
  a template literal converts with the hint \<open>PreferString\<close>. An array joins the strings
  of its elements with commas, \<open>null\<close> and \<open>undefined\<close> elements giving the empty string;
  the first element that throws ends the conversion.
\<close>

fun collect :: "(encode_error + jsstring) list \<Rightarrow> encode_error + jsstring list" where
  "collect [] = Inr []"
| "collect (Inl e # rs) = Inl e"
| "collect (Inr s # rs) = (case collect rs of Inl e \<Rightarrow> Inl e | Inr ss \<Rightarrow> Inr (s # ss))"

fun toString :: "hint \<Rightarrow> jsvalue \<Rightarrow> encode_error + jsstring" where
  "toString h (VArr vs) =
     (case collect (map (\<lambda>v. if v = VNull \<or> v = VUndefined then Inr []
                            else toString PreferString v) vs) of
        Inl e \<Rightarrow> Inl e
      | Inr ss \<Rightarrow> Inr (joinComma ss))"
| "toString h (VObj ts es) =
     (case toPrimitive h ts es of Inl e \<Rightarrow> Inl e | Inr p \<Rightarrow> Inr (primitiveToString p))"
| "toString h (VFun src r) = Inr src"
| "toString h (VDate s) = Inr s"
| "toString h v = Inr (primitiveToString v)"

text \<open>
  \<open>!isNaN(+value)\<close>. An object converts to a primitive with the hint \<open>PreferNumber\<close>, which
  may throw; a function and an array convert through their text. A date converts to
  its time value (taken as valid here; the test \<open>instanceof Date\<close> of \<open>encodeValue\<close>
  comes first, so this case is never asked).
\<close>

fun numericCoercible :: "jsvalue \<Rightarrow> encode_error + bool" where
  "numericCoercible (VObj ts es) =
     (case toPrimitive PreferNumber ts es of
        Inl e \<Rightarrow> Inl e
      | Inr p \<Rightarrow> Inr (primitiveNumeric p))"
| "numericCoercible (VFun src r) = Inr (stringIsNumeric src)"
| "numericCoercible (VArr vs) =
     (case toString PreferNumber (VArr vs) of
        Inl e \<Rightarrow> Inl e
      | Inr s \<Rightarrow> Inr (stringIsNumeric s))"
| "numericCoercible (VDate s) = Inr True"
| "numericCoercible v = Inr (primitiveNumeric v)"

definition withDoubleQuotes :: "jsstring \<Rightarrow> jsstring" where
  "withDoubleQuotes s = QUOTE # s @ [QUOTE]"

subsection \<open>The encoding functions\<close>

text \<open>
  \<open>encodeValue\<close> tests in the order of the source: array, \<open>null\<close>/\<open>undefined\<close>, date, the
  numeric test (which returns the value itself, not a string), then the switch on
  \<open>typeof\<close>. \<open>encodeObject\<close> calls the method \<open>toString\<close> of the object and compares its
  result with \<open>[object Object]\<close>. The loops of \<open>encodeArray\<close> and \<open>encodeObject\<close> carry the
  text built so far and the counter \<open>i\<close>; their first argument is the length of the whole
  container. The \<open>console.log\<close> of \<open>encodeObject\<close> does not change the returned value and is
  left out.
\<close>

fun encodeValue :: "jsvalue \<Rightarrow> encode_error + jsvalue"
  and encodeFunction :: "jsvalue \<Rightarrow> encode_error + jsvalue"
  and encodeArray :: "jsvalue list \<Rightarrow> encode_error + jsvalue"
  and encodeArrayLoop :: "nat \<Rightarrow> jsvalue list \<Rightarrow> jsstring \<Rightarrow> nat \<Rightarrow> encode_error + jsvalue"
  and encodeObject :: "jsstring \<Rightarrow> (jsstring \<times> jsvalue) list \<Rightarrow> encode_error + jsvalue"
  and encodeObjectLoop ::
    "nat \<Rightarrow> (jsstring \<times> jsvalue) list \<Rightarrow> jsstring \<Rightarrow> nat \<Rightarrow> encode_error + jsvalue"
where
  "encodeValue (VArr vs) = encodeArray vs"
| "encodeValue VNull = Inr (VStr (str ''null''))"
| "encodeValue VUndefined = Inr (VStr (str ''null''))"
| "encodeValue (VDate s) = Inr (VStr (withDoubleQuotes s))"
| "encodeValue (VNum n) =
     (case numericCoercible (VNum n) of
        Inl e \<Rightarrow> Inl e
      | Inr c \<Rightarrow> if c then Inr (VNum n) else Inl UnexpectedValue)"
| "encodeValue (VDec m e) =
     (case numericCoercible (VDec m e) of
        Inl e \<Rightarrow> Inl e
      | Inr c \<Rightarrow> if c then Inr (VDec m e) else Inl UnexpectedValue)"
| "encodeValue VNaN =
     (case numericCoercible VNaN of
        Inl e \<Rightarrow> Inl e
      | Inr c \<Rightarrow> if c then Inr VNaN else Inl UnexpectedValue)"
| "encodeValue (VStr s) =
     (case numericCoercible (VStr s) of
        Inl e \<Rightarrow> Inl e
      | Inr c \<Rightarrow> if c then Inr (VStr s) else Inr (VStr (QUOTE # s @ [QUOTE])))"
| "encodeValue (VBool b) =
     (case numericCoercible (VBool b) of
        Inl e \<Rightarrow> Inl e
      | Inr c \<Rightarrow> if c then Inr (VBool b)
                 else Inr (VStr (QUOTE # primitiveToString (VBool b) @ [QUOTE])))"
| "encodeValue (VObj ts es) =
     (case numericCoercible (VObj ts es) of
        Inl e \<Rightarrow> Inl e
      | Inr c \<Rightarrow> if c then Inr (VObj ts es) else encodeObject ts es)"
| "encodeValue (VFun src r) =
     (case numericCoercible (VFun src r) of
        Inl e \<Rightarrow> Inl e
      | Inr c \<Rightarrow> if c then Inr (VFun src r) else encodeFunction r)"
| "encodeFunction r = encodeValue r"
| "encodeArray vs = encodeArrayLoop (length vs) vs (str ''['') 0"
| "encodeArrayLoop len [] arr i = Inr (VStr arr)"
| "encodeArrayLoop len (v # vs) arr i =
     (case encodeValue v of
        Inl e \<Rightarrow> Inl e
      | Inr val \<Rightarrow>
          if typeof val = TFunction then encodeArrayLoop len vs arr i
          else (case toString PreferNumber val of
                  Inl e \<Rightarrow> Inl e
                | Inr s \<Rightarrow>
                    if int (i + 1) \<le> int len - 1
                    then encodeArrayLoop len vs (arr @ s @ str '','') (i + 1)
                    else encodeArrayLoop len vs (arr @ s @ str '']'') (i + 1)))"
| "encodeObject ts es =
     (case methodResult (str ''toString'') ts es of
        None \<Rightarrow> Inl TypeError
      | Some objectToString \<Rightarrow>
          if objectToString \<noteq> VStr (str ''[object Object]'')
          then (case toString PreferString objectToString of
                  Inl e \<Rightarrow> Inl e
                | Inr s \<Rightarrow> Inr (VStr (withDoubleQuotes s)))
          else encodeObjectLoop (length es) es (str ''{'') 0)"
| "encodeObjectLoop len [] obj i = Inr (VStr obj)"
| "encodeObjectLoop len ((key, v) # es) obj i =
     (case encodeValue v of
        Inl e \<Rightarrow> Inl e
      | Inr val \<Rightarrow>
          if typeof val = TFunction then encodeObjectLoop len es obj i
          else (case toString PreferString val of
                  Inl e \<Rightarrow> Inl e
                | Inr s \<Rightarrow>
                    if int (i + 1) \<le> int len - 1
                    then encodeObjectLoop len es
                           (obj @ QUOTE # key @ QUOTE # ch CHR '':'' # s @ str '','') (i + 1)
                    else encodeObjectLoop len es
                           (obj @ QUOTE # key @ QUOTE # ch CHR '':'' # s @ str ''}'') (i + 1)))"

definition encode :: "jsvalue \<Rightarrow> encode_error + jsvalue" where
  "encode input =
     (if \<not> isArray input \<and> typeof input \<noteq> TObject then Inl InvalidInput
      else encodeValue input)"

section \<open>The parser\<close>

text \<open>
  The values \<open>decode\<close> returns. \<open>parseFloat\<close> of a lexeme of digits with an optional
  minus sign is the integer it denotes when that is at most \<open>2^53 = 9007199254740992\<close>
  in magnitude
  (\<open>JNumber\<close>); the double of any other lexeme (a fraction, an exponent, a larger integer,
  \<open>-0\<close>) is not computed and is kept as the lexeme handed to \<open>parseFloat\<close> (\<open>JNumberLit\<close>).
  An object is its prototype and the list of its own properties in order of insertion.
  The object \<open>{}\<close> that \<open>parseObject\<close> starts from has the prototype \<open>Object.prototype\<close>;
  an assignment to the key \<open>__proto__\<close> can replace it by \<open>null\<close> or by a parsed object or
  array. \<open>JObject\<close> is an object whose prototype is \<open>Object.prototype\<close>.
\<close>

datatype JsonValue =
    JNull
  | JBool bool
  | JNumber int
  | JNumberLit jsstring
  | JString jsstring
  | JArray "JsonValue list"
  | JObjectWith prototype "(jsstring \<times> JsonValue) list"
and prototype =
    ObjectPrototype
  | NullPrototype
  | Prototype JsonValue

abbreviation JObject :: "(jsstring \<times> JsonValue) list \<Rightarrow> JsonValue" where
  "JObject es \<equiv> JObjectWith ObjectPrototype es"

text \<open>
  One error kind for each \<open>throw\<close> of the parser, with the position of the message:
  \<open>TrailingCharacters\<close> is "Unexpected token at position" of \<open>parse\<close>,
  \<open>InvalidJsonValue\<close> is "Invalid JSON value at position" of \<open>parseValue\<close>,
  \<open>InvalidObject\<close> and \<open>InvalidArray\<close> are "Invalid object" and "Invalid array",
  \<open>InvalidNumber\<close> is "Invalid JSON number" of \<open>parseDigits\<close>,
  \<open>InvalidUnicodeEscape\<close> and \<open>InvalidEscape\<close> are the two errors of \<open>parseEscape\<close>, and
  \<open>ExpectedCharacter\<close> is "Expected ... at position" of \<open>consume\<close>.
\<close>

datatype error_kind =
    TrailingCharacters
  | InvalidJsonValue
  | InvalidObject
  | InvalidArray
  | InvalidNumber
  | InvalidEscape
  | InvalidUnicodeEscape
  | ExpectedCharacter code_unit

type_synonym parse_error = "error_kind \<times> nat"

text \<open>
  A parsing function returns the error thrown, or its value and the new position.
  Functions with a loop that the input may keep running take fuel: \<open>None\<close> is a run that
  has not returned within the fuel.
\<close>

type_synonym 'a parsed = "(parse_error + 'a \<times> nat) option"

fun bindP :: "'a parsed \<Rightarrow> ('a \<Rightarrow> nat \<Rightarrow> 'b parsed) \<Rightarrow> 'b parsed" where
  "bindP None f = None"
| "bindP (Some (Inl e)) f = Some (Inl e)"
| "bindP (Some (Inr (v, p))) f = f v p"

fun bindC :: "parse_error + 'a \<Rightarrow> ('a \<Rightarrow> 'b parsed) \<Rightarrow> 'b parsed" where
  "bindC (Inl e) f = Some (Inl e)"
| "bindC (Inr p) f = f p"

fun bindE :: "parse_error + 'a \<Rightarrow> ('a \<Rightarrow> parse_error + 'b) \<Rightarrow> parse_error + 'b" where
  "bindE (Inl e) f = Inl e"
| "bindE (Inr p) f = f p"

text \<open>\<open>charAt\<close> returns the empty string at and after the end of the input: \<open>None\<close>.\<close>

definition currentToken :: "jsstring \<Rightarrow> nat \<Rightarrow> code_unit option" where
  "currentToken inp pos = (if pos < length inp then Some (inp ! pos) else None)"

text \<open>The loop of \<open>consume\<close> over space, tab, newline and carriage return.\<close>

function skipSpaces :: "jsstring \<Rightarrow> nat \<Rightarrow> nat" where
  "skipSpaces inp pos =
     (if currentToken inp pos = Some (ch CHR '' '') \<or> currentToken inp pos = Some 0x09 \<or>
         currentToken inp pos = Some 0x0A \<or> currentToken inp pos = Some 0x0D
      then skipSpaces inp (pos + 1) else pos)"
  by pat_completeness auto
termination
  by (relation "measure (\<lambda>(inp, pos). length inp - pos)")
     (auto simp: currentToken_def split: if_splits)

declare skipSpaces.simps [simp del]

definition consume :: "jsstring \<Rightarrow> code_unit option \<Rightarrow> nat \<Rightarrow> parse_error + nat" where
  "consume inp expected pos =
     (case expected of
        Some e \<Rightarrow>
          if currentToken inp pos \<noteq> Some e then Inl (ExpectedCharacter e, pos)
          else Inr (skipSpaces inp (pos + 1))
      | None \<Rightarrow> Inr (skipSpaces inp (pos + 1)))"

fun consumeAll :: "jsstring \<Rightarrow> jsstring \<Rightarrow> nat \<Rightarrow> parse_error + nat" where
  "consumeAll inp [] pos = Inr pos"
| "consumeAll inp (e # es) pos = bindE (consume inp (Some e) pos) (consumeAll inp es)"

function consumeWhitespace :: "jsstring \<Rightarrow> nat \<Rightarrow> nat" where
  "consumeWhitespace inp pos =
     (case currentToken inp pos of
        None \<Rightarrow> pos
      | Some c \<Rightarrow> if isWhiteSpace c then consumeWhitespace inp (skipSpaces inp (pos + 1)) else pos)"
  by pat_completeness auto
termination
proof (relation "measure (\<lambda>(inp, pos). length inp - pos)")
  show "wf (measure (\<lambda>(inp, pos). length inp - pos))" by simp
next
  fix inp :: jsstring and pos :: nat and c :: code_unit
  assume tok: "currentToken inp pos = Some c"
  have ge: "q \<le> skipSpaces inp q" for q
    by (induction inp q rule: skipSpaces.induct) (subst skipSpaces.simps, auto)
  from tok have "pos < length inp"
    by (simp add: currentToken_def split: if_splits)
  moreover have "pos + 1 \<le> skipSpaces inp (pos + 1)" by (rule ge)
  ultimately show "((inp, skipSpaces inp (pos + 1)), (inp, pos))
      \<in> measure (\<lambda>(inp, pos). length inp - pos)"
    by simp
qed

declare consumeWhitespace.simps [simp del]

subsection \<open>Strings and escapes\<close>

text \<open>
  \<open>parseInt(s, 16)\<close>: leading white space is trimmed, a sign is read, a prefix \<open>0x\<close> or
  \<open>0X\<close> is dropped, and the longest run of hexadecimal digits that follows is the
  number; \<open>NaN\<close> (here \<open>None\<close>) only when that run is empty.
\<close>

definition hexDigitValue :: "code_unit \<Rightarrow> int" where
  "hexDigitValue c =
     (if isDecimalDigit c then uint c - 0x30
      else if 0x41 \<le> c \<and> c \<le> 0x46 then uint c - 0x41 + 10
      else uint c - 0x61 + 10)"

fun hexValue :: "int \<Rightarrow> jsstring \<Rightarrow> int" where
  "hexValue acc [] = acc"
| "hexValue acc (c # cs) = hexValue (16 * acc + hexDigitValue c) cs"

definition parseInt16 :: "jsstring \<Rightarrow> int option" where
  "parseInt16 s =
     (let t = dropWhile isWhiteSpace s;
          sign = (case t of c # r \<Rightarrow> if c = ch CHR ''-'' then - 1 else 1 | [] \<Rightarrow> (1::int));
          t1 = (case t of c # r \<Rightarrow> if c = ch CHR ''-'' \<or> c = ch CHR ''+'' then r else t | [] \<Rightarrow> t);
          t2 = (case t1 of
                  z # x # r \<Rightarrow>
                    if z = ch CHR ''0'' \<and> (x = ch CHR ''x'' \<or> x = ch CHR ''X'') then r else t1
                | _ \<Rightarrow> t1);
          z = takeWhile isHexDigit t2
      in if z = [] then None else Some (sign * hexValue 0 z))"

definition substr :: "jsstring \<Rightarrow> nat \<Rightarrow> nat \<Rightarrow> jsstring" where
  "substr inp pos len = take len (drop pos inp)"

definition parseEscape :: "jsstring \<Rightarrow> nat \<Rightarrow> parse_error + jsstring \<times> nat" where
  "parseEscape inp pos =
     bindE (consume inp (Some BACKSLASH) pos) (\<lambda>p.
       case currentToken inp p of
         None \<Rightarrow> Inl (InvalidEscape, p)
       | Some c \<Rightarrow>
           if c = QUOTE \<or> c = BACKSLASH \<or> c = ch CHR ''/''
           then bindE (consume inp None p) (\<lambda>p'. Inr ([c], p'))
           else if c = ch CHR ''b'' then bindE (consume inp None p) (\<lambda>p'. Inr ([0x08], p'))
           else if c = ch CHR ''f'' then bindE (consume inp None p) (\<lambda>p'. Inr ([0x0C], p'))
           else if c = ch CHR ''n'' then bindE (consume inp None p) (\<lambda>p'. Inr ([0x0A], p'))
           else if c = ch CHR ''r'' then bindE (consume inp None p) (\<lambda>p'. Inr ([0x0D], p'))
           else if c = ch CHR ''t'' then bindE (consume inp None p) (\<lambda>p'. Inr ([0x09], p'))
           else if c = ch CHR ''u'' then
             bindE (consume inp None p) (\<lambda>p'.
               case parseInt16 (substr inp p' 4) of
                 None \<Rightarrow> Inl (InvalidUnicodeEscape, p')
               | Some code \<Rightarrow> Inr ([word_of_int code], p' + 4))
           else Inl (InvalidEscape, p))"

text \<open>
  The loop of \<open>parseString\<close>. At and after the end of the input the current token is the
  empty string, which is not a quote: the loop appends it and moves on.
\<close>

fun parseStringLoop :: "nat \<Rightarrow> jsstring \<Rightarrow> nat \<Rightarrow> jsstring \<Rightarrow> jsstring parsed" where
  "parseStringLoop 0 inp pos s = None"
| "parseStringLoop (Suc n) inp pos s =
     (if currentToken inp pos \<noteq> Some QUOTE then
        if currentToken inp pos = Some BACKSLASH
        then bindC (parseEscape inp pos) (\<lambda>(c, p). parseStringLoop n inp p (s @ c))
        else parseStringLoop n inp (pos + 1)
               (s @ (case currentToken inp pos of None \<Rightarrow> [] | Some c \<Rightarrow> [c]))
      else Some (Inr (s, pos)))"

definition parseString :: "nat \<Rightarrow> jsstring \<Rightarrow> nat \<Rightarrow> jsstring parsed" where
  "parseString n inp pos =
     bindC (consume inp (Some QUOTE) pos) (\<lambda>p.
       bindP (parseStringLoop n inp p []) (\<lambda>s p1.
         bindC (consume inp (Some QUOTE) p1) (\<lambda>p2. Some (Inr (s, p2)))))"

subsection \<open>Numbers\<close>

function digitsLoop :: "jsstring \<Rightarrow> nat \<Rightarrow> jsstring \<Rightarrow> jsstring \<times> nat" where
  "digitsLoop inp pos s =
     (case currentToken inp pos of
        None \<Rightarrow> (s, pos)
      | Some c \<Rightarrow>
          if ch CHR ''0'' \<le> c \<and> c \<le> ch CHR ''9''
          then digitsLoop inp (skipSpaces inp (pos + 1)) (s @ [c])
          else (s, pos))"
  by pat_completeness auto
termination
proof (relation "measure (\<lambda>(inp, pos, s). length inp - pos)")
  show "wf (measure (\<lambda>(inp, pos, s). length inp - pos))" by simp
next
  fix inp :: jsstring and pos :: nat and s :: jsstring and c :: code_unit
  assume tok: "currentToken inp pos = Some c"
  have ge: "q \<le> skipSpaces inp q" for q
    by (induction inp q rule: skipSpaces.induct) (subst skipSpaces.simps, auto)
  from tok have "pos < length inp"
    by (simp add: currentToken_def split: if_splits)
  moreover have "pos + 1 \<le> skipSpaces inp (pos + 1)" by (rule ge)
  ultimately show "((inp, skipSpaces inp (pos + 1), s @ [c]), (inp, pos, s))
      \<in> measure (\<lambda>(inp, pos, s). length inp - pos)"
    by simp
qed

declare digitsLoop.simps [simp del]

definition parseDigits :: "jsstring \<Rightarrow> nat \<Rightarrow> parse_error + jsstring \<times> nat" where
  "parseDigits inp pos =
     (case currentToken inp pos of
        None \<Rightarrow> Inl (InvalidNumber, pos)
      | Some c \<Rightarrow>
          if c = ch CHR ''0'' then bindE (consume inp None pos) (\<lambda>p. Inr ([c], p))
          else if ch CHR ''1'' \<le> c \<and> c \<le> ch CHR ''9''
          then bindE (consume inp None pos) (\<lambda>p. Inr (digitsLoop inp p [c]))
          else Inl (InvalidNumber, pos))"

definition parseFloat :: "jsstring \<Rightarrow> JsonValue" where
  "parseFloat s =
     (case s of
        [] \<Rightarrow> JNumberLit s
      | c # t \<Rightarrow>
          if c = ch CHR ''-'' then
            if t \<noteq> [] \<and> list_all isDecimalDigit t \<and> 0 < digitsValue 0 t \<and>
               digitsValue 0 t \<le> 9007199254740992
            then JNumber (- digitsValue 0 t) else JNumberLit s
          else
            if list_all isDecimalDigit s \<and> digitsValue 0 s \<le> 9007199254740992
            then JNumber (digitsValue 0 s) else JNumberLit s)"

definition parseNumber :: "jsstring \<Rightarrow> nat \<Rightarrow> parse_error + JsonValue \<times> nat" where
  "parseNumber inp pos =
     bindE (if currentToken inp pos = Some (ch CHR ''-'')
            then bindE (consume inp (Some (ch CHR ''-'')) pos) (\<lambda>p. Inr (str ''-'', p))
            else Inr ([], pos)) (\<lambda>(s0, p0).
     bindE (parseDigits inp p0) (\<lambda>(d1, p1).
     bindE (if currentToken inp p1 = Some (ch CHR ''.'')
            then bindE (consume inp (Some (ch CHR ''.'')) p1) (\<lambda>p.
                 bindE (parseDigits inp p) (\<lambda>(d2, p'). Inr (s0 @ d1 @ str ''.'' @ d2, p')))
            else Inr (s0 @ d1, p1)) (\<lambda>(s2, p2).
     bindE (if currentToken inp p2 = Some (ch CHR ''e'') \<or> currentToken inp p2 = Some (ch CHR ''E'')
            then bindE (consume inp None p2) (\<lambda>p3.
                 bindE (if currentToken inp p3 = Some (ch CHR ''+'') \<or>
                           currentToken inp p3 = Some (ch CHR ''-'')
                        then bindE (consume inp None p3) (\<lambda>p4.
                               Inr (s2 @ [inp ! p2] @ [inp ! p3], p4))
                        else Inr (s2 @ [inp ! p2], p3)) (\<lambda>(s4, p4).
                 bindE (parseDigits inp p4) (\<lambda>(d3, p5). Inr (s4 @ d3, p5))))
            else Inr (s2, p2)) (\<lambda>(s5, p5).
     Inr (parseFloat s5, p5)))))"

subsection \<open>Literals, arrays and objects\<close>

definition parseTrue :: "jsstring \<Rightarrow> nat \<Rightarrow> parse_error + JsonValue \<times> nat" where
  "parseTrue inp pos = bindE (consumeAll inp (str ''true'') pos) (\<lambda>p. Inr (JBool True, p))"

definition parseFalse :: "jsstring \<Rightarrow> nat \<Rightarrow> parse_error + JsonValue \<times> nat" where
  "parseFalse inp pos = bindE (consumeAll inp (str ''false'') pos) (\<lambda>p. Inr (JBool False, p))"

definition parseNull :: "jsstring \<Rightarrow> nat \<Rightarrow> parse_error + JsonValue \<times> nat" where
  "parseNull inp pos = bindE (consumeAll inp (str ''null'') pos) (\<lambda>p. Inr (JNull, p))"

text \<open>
  \<open>obj[key] = value\<close>. An existing own property keeps its place and takes the new
  value. Otherwise the assignment looks for the key along the prototype chain. The
  only property there that is not a writable data property is the accessor \<open>__proto__\<close>
  of \<open>Object.prototype\<close>: for every other key, and for \<open>__proto__\<close> when the chain has a
  data property of that name or ends in \<open>null\<close> before \<open>Object.prototype\<close>, a new own
  property is added at the end. The setter of the accessor stores no property: it
  replaces the prototype when the value is \<open>null\<close>, an object or an array, and does
  nothing for any other value.
\<close>

fun updateEntry :: "jsstring \<Rightarrow> JsonValue \<Rightarrow> (jsstring \<times> JsonValue) list \<Rightarrow> (jsstring \<times> JsonValue) list" where
  "updateEntry key v [] = [(key, v)]"
| "updateEntry key v ((k, w) # es) =
     (if k = key then (key, v) # es else (k, w) # updateEntry key v es)"

text \<open>
  Whether an assignment to \<open>__proto__\<close>, on an object with this prototype and no own
  property of that name, reaches the accessor of \<open>Object.prototype\<close>. An array inherits
  from \<open>Array.prototype\<close> and then from \<open>Object.prototype\<close>.
\<close>

fun reachesAccessor :: "prototype \<Rightarrow> bool" where
  "reachesAccessor ObjectPrototype = True"
| "reachesAccessor NullPrototype = False"
| "reachesAccessor (Prototype (JObjectWith pr es)) =
     (str ''__proto__'' \<notin> fst ` set es \<and> reachesAccessor pr)"
| "reachesAccessor (Prototype (JArray vs)) = True"
| "reachesAccessor (Prototype v) = False"

fun setProperty :: "JsonValue \<Rightarrow> jsstring \<Rightarrow> JsonValue \<Rightarrow> JsonValue" where
  "setProperty (JObjectWith pr es) key v =
     (if key = str ''__proto__'' \<and> str ''__proto__'' \<notin> fst ` set es \<and> reachesAccessor pr
      then (case v of
              JNull \<Rightarrow> JObjectWith NullPrototype es
            | JArray vs \<Rightarrow> JObjectWith (Prototype v) es
            | JObjectWith pr' es' \<Rightarrow> JObjectWith (Prototype v) es
            | _ \<Rightarrow> JObjectWith pr es)
      else JObjectWith pr (updateEntry key v es))"
| "setProperty obj key v = obj"

function (sequential) parseValue :: "nat \<Rightarrow> jsstring \<Rightarrow> nat \<Rightarrow> JsonValue parsed"
  and parseObject :: "nat \<Rightarrow> jsstring \<Rightarrow> nat \<Rightarrow> JsonValue parsed"
  and parseObjectLoop :: "nat \<Rightarrow> jsstring \<Rightarrow> nat \<Rightarrow> JsonValue \<Rightarrow> JsonValue parsed"
  and parsePair :: "nat \<Rightarrow> jsstring \<Rightarrow> nat \<Rightarrow> (jsstring \<times> JsonValue) parsed"
  and parseArray :: "nat \<Rightarrow> jsstring \<Rightarrow> nat \<Rightarrow> JsonValue parsed"
  and parseArrayLoop :: "nat \<Rightarrow> jsstring \<Rightarrow> nat \<Rightarrow> JsonValue list \<Rightarrow> JsonValue parsed"
where
  "parseValue 0 inp pos = None"
| "parseValue (Suc n) inp pos =
     (case currentToken inp pos of
        None \<Rightarrow> Some (Inl (InvalidJsonValue, pos))
      | Some c \<Rightarrow>
          if c = ch CHR ''{'' then parseObject n inp pos
          else if c = ch CHR ''['' then parseArray n inp pos
          else if c = QUOTE then bindP (parseString n inp pos) (\<lambda>s p. Some (Inr (JString s, p)))
          else if c = ch CHR ''-'' \<or> c \<in> set (str ''0123456789'') then Some (parseNumber inp pos)
          else if c = ch CHR ''t'' then Some (parseTrue inp pos)
          else if c = ch CHR ''f'' then Some (parseFalse inp pos)
          else if c = ch CHR ''n'' then Some (parseNull inp pos)
          else Some (Inl (InvalidJsonValue, pos)))"
| "parseObject 0 inp pos = None"
| "parseObject (Suc n) inp pos =
     bindC (consume inp (Some (ch CHR ''{'')) pos) (\<lambda>p. parseObjectLoop n inp p (JObject []))"
| "parseObjectLoop 0 inp pos obj = None"
| "parseObjectLoop (Suc n) inp pos obj =
     (if currentToken inp pos \<noteq> Some (ch CHR ''}'') then
        bindP (parsePair n inp pos) (\<lambda>(key, v) p.
          if currentToken inp p = Some (ch CHR '','')
          then bindC (consume inp (Some (ch CHR '','')) p) (\<lambda>p'.
                 parseObjectLoop n inp p' (setProperty obj key v))
          else if currentToken inp p \<noteq> Some (ch CHR ''}'') then Some (Inl (InvalidObject, p))
          else parseObjectLoop n inp p (setProperty obj key v))
      else bindC (consume inp (Some (ch CHR ''}'')) pos) (\<lambda>p. Some (Inr (obj, p))))"
| "parsePair 0 inp pos = None"
| "parsePair (Suc n) inp pos =
     bindP (parseString n inp pos) (\<lambda>key p.
       bindC (consume inp (Some (ch CHR '':'')) p) (\<lambda>p'.
         bindP (parseValue n inp p') (\<lambda>v p''. Some (Inr ((key, v), p'')))))"
| "parseArray 0 inp pos = None"
| "parseArray (Suc n) inp pos =
     bindC (consume inp (Some (ch CHR ''['')) pos) (\<lambda>p. parseArrayLoop n inp p [])"
| "parseArrayLoop 0 inp pos arr = None"
| "parseArrayLoop (Suc n) inp pos arr =
     (if currentToken inp pos \<noteq> Some (ch CHR '']'') then
        bindP (parseValue n inp pos) (\<lambda>v p.
          if currentToken inp p = Some (ch CHR '','')
          then bindC (consume inp (Some (ch CHR '','')) p) (\<lambda>p'.
                 parseArrayLoop n inp p' (arr @ [v]))
          else if currentToken inp p \<noteq> Some (ch CHR '']'') then Some (Inl (InvalidArray, p))
          else parseArrayLoop n inp p (arr @ [v]))
      else bindC (consume inp (Some (ch CHR '']'')) pos) (\<lambda>p. Some (Inr (JArray arr, p))))"
  by pat_completeness auto
termination
  by (relation "measure (\<lambda>x. case x of
         Inl (Inl (n, _)) \<Rightarrow> n
       | Inl (Inr (Inl (n, _))) \<Rightarrow> n
       | Inl (Inr (Inr (n, _))) \<Rightarrow> n
       | Inr (Inl (n, _)) \<Rightarrow> n
       | Inr (Inr (Inl (n, _))) \<Rightarrow> n
       | Inr (Inr (Inr (n, _))) \<Rightarrow> n)") auto

text \<open>
  \<open>parse\<close> skips white space, parses one value, skips white space again and, through
  \<open>hasNext\<close>, once more; a token that remains is an error.
\<close>

definition hasNext :: "jsstring \<Rightarrow> nat \<Rightarrow> bool \<times> nat" where
  "hasNext inp pos =
     (let p = consumeWhitespace inp pos in (currentToken inp p \<noteq> None, p))"

definition parse :: "nat \<Rightarrow> jsstring \<Rightarrow> (parse_error + JsonValue) option" where
  "parse n inp =
     (case parseValue n inp (consumeWhitespace inp 0) of
        None \<Rightarrow> None
      | Some (Inl e) \<Rightarrow> Some (Inl e)
      | Some (Inr (result, p)) \<Rightarrow>
          (case hasNext inp (consumeWhitespace inp p) of
             (True, p') \<Rightarrow> Some (Inl (TrailingCharacters, p'))
           | (False, p') \<Rightarrow> Some (Inr result)))"

definition decode :: "nat \<Rightarrow> jsstring \<Rightarrow> (parse_error + JsonValue) option" where
  "decode n json = parse n json"

text \<open>\<open>failsWith k r\<close>: the run \<open>r\<close> threw the error of kind \<open>k\<close>, at any position.\<close>

definition failsWith :: "error_kind \<Rightarrow> (parse_error + JsonValue) option \<Rightarrow> bool" where
  "failsWith k r = (case r of Some (Inl (k', p)) \<Rightarrow> k' = k | _ \<Rightarrow> False)"

section \<open>Families of inputs\<close>

text \<open>
  The predicates and texts over which the general theorems are stated. A blank is one
  of the four characters the loop of \<open>consume\<close> skips. A plain text has neither a quote
  nor a backslash: the loop of \<open>parseString\<close> copies it character by character.
\<close>

definition isBlank :: "code_unit \<Rightarrow> bool" where
  "isBlank c \<longleftrightarrow> c = ch CHR '' '' \<or> c = 0x09 \<or> c = 0x0A \<or> c = 0x0D"

definition noLeadingBlank :: "jsstring \<Rightarrow> bool" where
  "noLeadingBlank s = (case s of [] \<Rightarrow> True | c # t \<Rightarrow> \<not> isBlank c)"

definition plainText :: "jsstring \<Rightarrow> bool" where
  "plainText s \<longleftrightarrow> QUOTE \<notin> set s \<and> BACKSLASH \<notin> set s"

text \<open>The one-character escapes of the switch of \<open>parseEscape\<close>, with the character each returns.\<close>

definition simpleEscape :: "code_unit \<Rightarrow> code_unit option" where
  "simpleEscape c =
     (if c = QUOTE \<or> c = BACKSLASH \<or> c = ch CHR ''/'' then Some c
      else if c = ch CHR ''b'' then Some 0x08
      else if c = ch CHR ''f'' then Some 0x0C
      else if c = ch CHR ''n'' then Some 0x0A
      else if c = ch CHR ''r'' then Some 0x0D
      else if c = ch CHR ''t'' then Some 0x09
      else None)"

text \<open>
  The compact JSON text of a value built from \<open>null\<close>, numbers, strings, arrays and
  objects: what \<open>encode\<close> is meant to write, and the family of inputs of \<open>decode\<close> the
  theorems range over. As the description of a text, the entry list of an object may
  repeat a key. Other values have no text here.
\<close>

fun jsonText :: "jsvalue \<Rightarrow> jsstring" where
  "jsonText VNull = str ''null''"
| "jsonText (VNum n) = numberToString n"
| "jsonText (VDec m e) = decimalToString m e"
| "jsonText (VStr s) = (if stringIsNumeric s then s else QUOTE # s @ [QUOTE])"
| "jsonText (VArr vs) = ch CHR ''['' # joinComma (map jsonText vs) @ str '']''"
| "jsonText (VObj ts es) =
     ch CHR ''{'' #
     joinComma (map (\<lambda>(k, v). QUOTE # k @ QUOTE # ch CHR '':'' # jsonText v) es) @ str ''}''"
| "jsonText v = []"

text \<open>
  A key the parser reads back as it is: plain, not starting with a blank, and not
  \<open>__proto__\<close> (whose assignment JavaScript sends to the prototype accessor).
\<close>

definition validKey :: "jsstring \<Rightarrow> bool" where
  "validKey k \<longleftrightarrow> plainText k \<and> noLeadingBlank k \<and> k \<noteq> str ''__proto__''"

text \<open>
  The number texts that \<open>parseNumber\<close> reads to their end: an optional minus sign, a run
  of digits, an optional fraction of a point and a run of digits, an optional exponent
  of \<open>e\<close> or \<open>E\<close>, an optional sign and a run of digits. Every run is as \<open>parseDigits\<close> reads
  it: \<open>0\<close> alone, or digits that do not start with \<open>0\<close>.
\<close>

definition digitRun :: "jsstring \<Rightarrow> bool" where
  "digitRun ds \<longleftrightarrow>
     ds = [ch CHR ''0''] \<or> (ds \<noteq> [] \<and> list_all isDecimalDigit ds \<and> hd ds \<noteq> ch CHR ''0'')"

definition lexemeExponent :: "jsstring \<Rightarrow> bool" where
  "lexemeExponent r =
     (case r of
        [] \<Rightarrow> True
      | c # t \<Rightarrow>
          (c = ch CHR ''e'' \<or> c = ch CHR ''E'') \<and>
          (case t of
             [] \<Rightarrow> False
           | d # u \<Rightarrow> if d = ch CHR ''+'' \<or> d = ch CHR ''-'' then digitRun u else digitRun t))"

definition lexemeFraction :: "jsstring \<Rightarrow> bool" where
  "lexemeFraction r =
     (case r of
        [] \<Rightarrow> True
      | c # t \<Rightarrow>
          if c = ch CHR ''.''
          then digitRun (takeWhile isDecimalDigit t) \<and> lexemeExponent (dropWhile isDecimalDigit t)
          else lexemeExponent r)"

definition unsignedLexeme :: "jsstring \<Rightarrow> bool" where
  "unsignedLexeme s \<longleftrightarrow>
     digitRun (takeWhile isDecimalDigit s) \<and> lexemeFraction (dropWhile isDecimalDigit s)"

definition numberLexeme :: "jsstring \<Rightarrow> bool" where
  "numberLexeme s =
     (case s of
        [] \<Rightarrow> False
      | c # t \<Rightarrow> if c = ch CHR ''-'' then unsignedLexeme t else unsignedLexeme s)"

text \<open>
  The values of the round trip: \<open>null\<close>; integers of magnitude at most \<open>2^53\<close>; other
  finite numbers whose text is a number text of the parser; strings that are number
  texts of the parser or else non-numeric, plain and not starting with a blank; and
  non-empty arrays and plain objects of such values under valid keys.
\<close>

fun roundTrips :: "jsvalue \<Rightarrow> bool" where
  "roundTrips VNull = True"
| "roundTrips (VNum n) = (- 9007199254740992 \<le> n \<and> n \<le> 9007199254740992)"
| "roundTrips (VDec m e) = (m mod 10 \<noteq> 0 \<and> numberLexeme (decimalToString m e))"
| "roundTrips (VStr s) =
     (if stringIsNumeric s then numberLexeme s else plainText s \<and> noLeadingBlank s)"
| "roundTrips (VArr vs) = (vs \<noteq> [] \<and> list_all roundTrips vs)"
| "roundTrips (VObj ts es) =
     (ts = str ''[object Object]'' \<and> es \<noteq> [] \<and>
      list_all (\<lambda>(k, v). validKey k \<and> roundTrips v) es)"
| "roundTrips v = False"

text \<open>The keys of every object are distinct, as the keys of \<open>Object.entries\<close> are.\<close>

fun distinctKeys :: "jsvalue \<Rightarrow> bool" where
  "distinctKeys (VArr vs) = list_all distinctKeys vs"
| "distinctKeys (VObj ts es) =
     (distinct (map fst es) \<and> list_all (\<lambda>(k, v). distinctKeys v) es)"
| "distinctKeys (VFun src r) = distinctKeys r"
| "distinctKeys v = True"

text \<open>
  No object has an own property named \<open>toString\<close>. Such a property stands before the
  inherited method in every conversion of the object, and the numeric test of
  \<open>encodeValue\<close> throws when it is not a function.
\<close>

fun inheritsToString :: "jsvalue \<Rightarrow> bool" where
  "inheritsToString (VArr vs) = list_all inheritsToString vs"
| "inheritsToString (VObj ts es) =
     list_all (\<lambda>(k, v). k \<noteq> str ''toString'' \<and> inheritsToString v) es"
| "inheritsToString v = True"

fun isContainer :: "jsvalue \<Rightarrow> bool" where
  "isContainer (VArr vs) = True"
| "isContainer (VObj ts es) = True"
| "isContainer v = False"

text \<open>
  The value a round trip gives back: the same shape, a numeric string replaced by the
  number \<open>parseFloat\<close> reads from it. A number that is not an integer comes back as
  \<open>parseFloat\<close> of the text \<open>Number::toString\<close> printed, which is that number: the printed
  decimal is by its choice one that denotes it. Values outside \<open>roundTrips\<close> are not
  described (\<open>JNull\<close> stands in).
\<close>

fun decoded :: "jsvalue \<Rightarrow> JsonValue" where
  "decoded VNull = JNull"
| "decoded (VNum n) = JNumber n"
| "decoded (VDec m e) = parseFloat (decimalToString m e)"
| "decoded (VStr s) = (if stringIsNumeric s then parseFloat s else JString s)"
| "decoded (VArr vs) = JArray (map decoded vs)"
| "decoded (VObj ts es) = JObject (map (\<lambda>(k, v). (k, decoded v)) es)"
| "decoded v = JNull"

text \<open>The assignments \<open>obj[key] = value\<close> of a list of pairs, in order.\<close>

fun setAll :: "JsonValue \<Rightarrow> (jsstring \<times> JsonValue) list \<Rightarrow> JsonValue" where
  "setAll obj [] = obj"
| "setAll obj ((k, v) # kvs) = setAll (setProperty obj k v) kvs"

text \<open>The own properties of an object.\<close>

fun ownProperties :: "JsonValue \<Rightarrow> (jsstring \<times> JsonValue) list" where
  "ownProperties (JObjectWith pr es) = es"
| "ownProperties v = []"

text \<open>
  The members of an object text as the parser reads them: the loop of \<open>parseObject\<close>
  with each pair added to a list instead of assigned, so that no key is ever compared
  with another. \<open>objectMembers\<close> reads the members of the object text that opens the
  input.
\<close>

fun readMembers ::
  "nat \<Rightarrow> jsstring \<Rightarrow> nat \<Rightarrow> (jsstring \<times> JsonValue) list \<Rightarrow> (jsstring \<times> JsonValue) list parsed" where
  "readMembers 0 inp pos kvs = None"
| "readMembers (Suc n) inp pos kvs =
     (if currentToken inp pos \<noteq> Some (ch CHR ''}'') then
        bindP (parsePair n inp pos) (\<lambda>(key, v) p.
          if currentToken inp p = Some (ch CHR '','')
          then bindC (consume inp (Some (ch CHR '','')) p) (\<lambda>p'.
                 readMembers n inp p' (kvs @ [(key, v)]))
          else if currentToken inp p \<noteq> Some (ch CHR ''}'') then Some (Inl (InvalidObject, p))
          else readMembers n inp p (kvs @ [(key, v)]))
      else bindC (consume inp (Some (ch CHR ''}'')) pos) (\<lambda>p. Some (Inr (kvs, p))))"

definition objectMembers :: "nat \<Rightarrow> jsstring \<Rightarrow> (jsstring \<times> JsonValue) list parsed" where
  "objectMembers n inp =
     bindC (consume inp (Some (ch CHR ''{'')) (consumeWhitespace inp 0)) (\<lambda>p.
       readMembers n inp p [])"

text \<open>What may follow a value inside a container, or nothing.\<close>

definition closes :: "jsstring \<Rightarrow> bool" where
  "closes rest =
     (case rest of [] \<Rightarrow> True | c # t \<Rightarrow> c = ch CHR '','' \<or> c = ch CHR '']'' \<or> c = ch CHR ''}'')"

text \<open>
  Predicates of the proofs: what stops a run of digits; a text that can start a value
  after a separator; a value whose text \<open>encodeValue\<close> writes; a value that
  \<open>parseValue\<close> reads back from its text, wherever the text stands in the input.
\<close>

definition stops :: "jsstring \<Rightarrow> bool" where
  "stops rest = (case rest of [] \<Rightarrow> True | c # t \<Rightarrow> \<not> isDecimalDigit c \<and> \<not> isBlank c)"

definition startsValue :: "jsstring \<Rightarrow> bool" where
  "startsValue s = (case s of [] \<Rightarrow> False | c # t \<Rightarrow> \<not> isBlank c \<and> c \<noteq> ch CHR '']'')"

definition parsesTo :: "jsvalue \<Rightarrow> bool" where
  "parsesTo v \<longleftrightarrow>
     (\<forall>pre rest. closes rest \<longrightarrow>
        (\<exists>n. parseValue n (pre @ jsonText v @ rest) (length pre)
              = Some (Inr (decoded v, length pre + length (jsonText v)))))"

definition encodesTo :: "jsvalue \<Rightarrow> bool" where
  "encodesTo v \<longleftrightarrow>
     (\<exists>r. encodeValue v = Inr r \<and> \<not> isObject r \<and> primitiveToString r = jsonText v)"

section \<open>Evaluation rules\<close>

lemma str_simps: "str [] = []" "str (c # cs) = ch c # str cs"
  by (simp_all add: str_def)

lemmas token_defs = ch_def QUOTE_def BACKSLASH_def currentToken_def

lemmas parser_eval =
  decode_def parse_def hasNext_def str_simps token_defs consume_def skipSpaces.simps
  consumeWhitespace.simps isWhiteSpace_def isDecimalDigit_def parseNumber_def
  parseDigits_def parseFloat_def

section \<open>Fuel\<close>

text \<open>
  A run that returns with some fuel returns the same with any larger fuel: the result of
  \<open>decode\<close>, when there is one, does not depend on the fuel.
\<close>

lemma skipSpaces_ge: "pos \<le> skipSpaces inp pos"
  by (induction inp pos rule: skipSpaces.induct) (subst skipSpaces.simps, auto)

lemma parseStringLoop_runs_past_end:
  "QUOTE \<notin> set (drop pos inp) \<Longrightarrow> BACKSLASH \<notin> set (drop pos inp) \<Longrightarrow>
   parseStringLoop n inp pos s = None"
proof (induction n arbitrary: pos s)
  case 0
  show ?case by simp
next
  case (Suc n)
  have sub: "set (drop (pos + 1) inp) \<subseteq> set (drop pos inp)"
    by (rule set_drop_subset_set_drop) simp
  have tok: "currentToken inp pos \<noteq> Some QUOTE" "currentToken inp pos \<noteq> Some BACKSLASH"
    using Suc.prems Cons_nth_drop_Suc [of pos inp, symmetric]
    by (auto simp: currentToken_def)
  have "parseStringLoop n inp (pos + 1) s' = None" for s'
    using Suc.prems sub by (intro Suc.IH) auto
  with tok show ?case by simp
qed


lemma bindP_mono:
  assumes "bindP x f = Some r"
    and "\<And>y. x = Some y \<Longrightarrow> x' = Some y"
    and "\<And>v p. x = Some (Inr (v, p)) \<Longrightarrow> f v p = Some r \<Longrightarrow> f' v p = Some r"
  shows "bindP x' f' = Some r"
proof (cases x)
  case None
  with assms show ?thesis by simp
next
  case (Some a)
  with assms show ?thesis by (cases a) auto
qed

lemma bindC_mono:
  assumes "bindC c f = Some r"
    and "\<And>p. c = Inr p \<Longrightarrow> f p = Some r \<Longrightarrow> f' p = Some r"
  shows "bindC c f' = Some r"
  using assms by (cases c) auto

lemma parseStringLoop_mono:
  "parseStringLoop n inp pos s = Some r \<Longrightarrow> n \<le> m \<Longrightarrow> parseStringLoop m inp pos s = Some r"
proof (induction n arbitrary: pos s m)
  case 0
  then show ?case by simp
next
  case (Suc n)
  from Suc.prems obtain m' where m: "m = Suc m'" and le: "n \<le> m'"
    by (cases m) auto
  note IH = Suc.IH [OF _ le]
  show ?case
    using Suc.prems(1) unfolding m
    by (auto simp del: bindC.simps elim!: bindC_mono intro: IH split: if_splits prod.splits)
qed

lemma parseString_mono:
  "parseString n inp pos = Some r \<Longrightarrow> n \<le> m \<Longrightarrow> parseString m inp pos = Some r"
  unfolding parseString_def
  by (erule bindC_mono, erule bindP_mono) (auto intro: parseStringLoop_mono)

lemma if_mono:
  assumes "(if c then a else b) = Some r"
    and "c \<Longrightarrow> a = Some r \<Longrightarrow> a' = Some r"
    and "\<not> c \<Longrightarrow> b = Some r \<Longrightarrow> b' = Some r"
  shows "(if c then a' else b') = Some r"
  using assms by (cases c) auto

lemma case_option_mono:
  assumes "(case t of None \<Rightarrow> a | Some c \<Rightarrow> f c) = Some r"
    and "\<And>c. t = Some c \<Longrightarrow> f c = Some r \<Longrightarrow> f' c = Some r"
  shows "(case t of None \<Rightarrow> a | Some c \<Rightarrow> f' c) = Some r"
  using assms by (cases t) auto

lemma parsePair_step:
  assumes V: "\<And>inp pos r. parseValue n inp pos = Some r \<Longrightarrow> parseValue m inp pos = Some r"
  and S: "\<And>inp pos r. parseString n inp pos = Some r \<Longrightarrow> parseString m inp pos = Some r"
  shows "parsePair (Suc n) inp pos = Some r4 \<Longrightarrow> parsePair (Suc m) inp pos = Some r4"
  apply (simp only: parsePair.simps)
  apply ((erule if_mono bindP_mono bindC_mono case_option_mono V S | assumption)+)
  done

lemma parseValue_step:
  assumes O: "\<And>inp pos r. parseObject n inp pos = Some r \<Longrightarrow> parseObject m inp pos = Some r"
      and A: "\<And>inp pos r. parseArray n inp pos = Some r \<Longrightarrow> parseArray m inp pos = Some r"
  and S: "\<And>inp pos r. parseString n inp pos = Some r \<Longrightarrow> parseString m inp pos = Some r"
  shows "parseValue (Suc n) inp pos = Some r1 \<Longrightarrow> parseValue (Suc m) inp pos = Some r1"
  apply (simp only: parseValue.simps)
  apply ((erule if_mono bindP_mono bindC_mono case_option_mono O A S | assumption)+)
  done

lemma parseObjectLoop_step:
  assumes OL: "\<And>inp pos obj r. parseObjectLoop n inp pos obj = Some r \<Longrightarrow>
        parseObjectLoop m inp pos obj = Some r"
    and P: "\<And>inp pos r. parsePair n inp pos = Some r \<Longrightarrow> parsePair m inp pos = Some r"
  shows "parseObjectLoop (Suc n) inp pos obj = Some r3 \<Longrightarrow> parseObjectLoop (Suc m) inp pos obj = Some r3"
  apply (simp only: parseObjectLoop.simps)
  apply ((erule if_mono bindP_mono bindC_mono case_option_mono OL P | assumption | simp only: split_paired_all prod.case)+)
  done


lemma parseObject_step:
  assumes OL: "\<And>inp pos obj r. parseObjectLoop n inp pos obj = Some r \<Longrightarrow>
        parseObjectLoop m inp pos obj = Some r"
  shows "parseObject (Suc n) inp pos = Some r \<Longrightarrow> parseObject (Suc m) inp pos = Some r"
  apply (simp only: parseObject.simps)
  apply ((erule bindC_mono OL | assumption)+)
  done

lemma parseArray_step:
  assumes AL: "\<And>inp pos arr r. parseArrayLoop n inp pos arr = Some r \<Longrightarrow>
        parseArrayLoop m inp pos arr = Some r"
  shows "parseArray (Suc n) inp pos = Some r \<Longrightarrow> parseArray (Suc m) inp pos = Some r"
  apply (simp only: parseArray.simps)
  apply ((erule bindC_mono AL | assumption)+)
  done

lemma parseArrayLoop_step:
  assumes AL: "\<And>inp pos arr r. parseArrayLoop n inp pos arr = Some r \<Longrightarrow>
        parseArrayLoop m inp pos arr = Some r"
    and V: "\<And>inp pos r. parseValue n inp pos = Some r \<Longrightarrow> parseValue m inp pos = Some r"
  shows "parseArrayLoop (Suc n) inp pos arr = Some r \<Longrightarrow>
         parseArrayLoop (Suc m) inp pos arr = Some r"
  apply (simp only: parseArrayLoop.simps)
  apply ((erule if_mono bindP_mono bindC_mono AL V | assumption)+)
  done

lemma parse_mono_aux:
  "(\<forall>inp pos r m. n \<le> m \<longrightarrow> parseValue n inp pos = Some r \<longrightarrow> parseValue m inp pos = Some r) \<and>
   (\<forall>inp pos r m. n \<le> m \<longrightarrow> parseObject n inp pos = Some r \<longrightarrow> parseObject m inp pos = Some r) \<and>
   (\<forall>inp pos obj r m. n \<le> m \<longrightarrow> parseObjectLoop n inp pos obj = Some r \<longrightarrow>
      parseObjectLoop m inp pos obj = Some r) \<and>
   (\<forall>inp pos r m. n \<le> m \<longrightarrow> parsePair n inp pos = Some r \<longrightarrow> parsePair m inp pos = Some r) \<and>
   (\<forall>inp pos r m. n \<le> m \<longrightarrow> parseArray n inp pos = Some r \<longrightarrow> parseArray m inp pos = Some r) \<and>
   (\<forall>inp pos arr r m. n \<le> m \<longrightarrow> parseArrayLoop n inp pos arr = Some r \<longrightarrow>
      parseArrayLoop m inp pos arr = Some r)"
proof (induction n)
  case 0
  show ?case by simp
next
  case (Suc n)
  note IH = Suc.IH
  have V: "parseValue n inp pos = Some r \<Longrightarrow> parseValue m inp pos = Some r"
    if "n \<le> m" for m inp pos r
    using IH [THEN conjunct1, rule_format, OF that] .
  have O: "parseObject n inp pos = Some r \<Longrightarrow> parseObject m inp pos = Some r"
    if "n \<le> m" for m inp pos r
    using IH [THEN conjunct2, THEN conjunct1, rule_format, OF that] .
  have OL: "parseObjectLoop n inp pos obj = Some r \<Longrightarrow> parseObjectLoop m inp pos obj = Some r"
    if "n \<le> m" for m inp pos obj r
    using IH [THEN conjunct2, THEN conjunct2, THEN conjunct1, rule_format, OF that] .
  have P: "parsePair n inp pos = Some r \<Longrightarrow> parsePair m inp pos = Some r"
    if "n \<le> m" for m inp pos r
    using IH [THEN conjunct2, THEN conjunct2, THEN conjunct2, THEN conjunct1, rule_format, OF that] .
  have A: "parseArray n inp pos = Some r \<Longrightarrow> parseArray m inp pos = Some r"
    if "n \<le> m" for m inp pos r
    using IH [THEN conjunct2, THEN conjunct2, THEN conjunct2, THEN conjunct2, THEN conjunct1,
        rule_format, OF that] .
  have AL: "parseArrayLoop n inp pos arr = Some r \<Longrightarrow> parseArrayLoop m inp pos arr = Some r"
    if "n \<le> m" for m inp pos arr r
    using IH [THEN conjunct2, THEN conjunct2, THEN conjunct2, THEN conjunct2, THEN conjunct2,
        rule_format, OF that] .
  have S: "parseString n inp pos = Some r \<Longrightarrow> parseString m inp pos = Some r"
    if "n \<le> m" for m inp pos r
    using that by (rule parseString_mono [rotated])
  have suc: "\<exists>m'. m = Suc m' \<and> n \<le> m'" if "Suc n \<le> m" for m
    using that by (cases m) auto
  show ?case
  proof (intro conjI allI impI)
    fix inp pos r m
    assume "Suc n \<le> m"
    then obtain m' where m: "m = Suc m'" "n \<le> m'" using suc by blast
    { assume h: "parseValue (Suc n) inp pos = Some r"
      show "parseValue m inp pos = Some r"
        unfolding m(1)
        by (rule parseValue_step [OF O [OF m(2)] A [OF m(2)] S [OF m(2)] h]) }
    { assume h: "parseObject (Suc n) inp pos = Some r"
      show "parseObject m inp pos = Some r"
        unfolding m(1) by (rule parseObject_step [OF OL [OF m(2)] h]) }
    { assume h: "parseArray (Suc n) inp pos = Some r"
      show "parseArray m inp pos = Some r"
        unfolding m(1) by (rule parseArray_step [OF AL [OF m(2)] h]) }
  next
    fix inp pos obj r m
    assume "Suc n \<le> m"
    then obtain m' where m: "m = Suc m'" "n \<le> m'" using suc by blast
    assume h: "parseObjectLoop (Suc n) inp pos obj = Some r"
    show "parseObjectLoop m inp pos obj = Some r"
      unfolding m(1) by (rule parseObjectLoop_step [OF OL [OF m(2)] P [OF m(2)] h])
  next
    fix inp pos r m
    assume "Suc n \<le> m"
    then obtain m' where m: "m = Suc m'" "n \<le> m'" using suc by blast
    assume h: "parsePair (Suc n) inp pos = Some r"
    show "parsePair m inp pos = Some r"
      unfolding m(1) by (rule parsePair_step [OF V [OF m(2)] S [OF m(2)] h])
  next
    fix inp pos arr r m
    assume "Suc n \<le> m"
    then obtain m' where m: "m = Suc m'" "n \<le> m'" using suc by blast
    assume h: "parseArrayLoop (Suc n) inp pos arr = Some r"
    show "parseArrayLoop m inp pos arr = Some r"
      unfolding m(1) by (rule parseArrayLoop_step [OF AL [OF m(2)] V [OF m(2)] h])
  qed
qed

lemma parseValue_mono:
  "parseValue n inp pos = Some r \<Longrightarrow> n \<le> m \<Longrightarrow> parseValue m inp pos = Some r"
  by (rule parse_mono_aux [THEN conjunct1, rule_format, rotated])

lemma parseObjectLoop_mono:
  "parseObjectLoop n inp pos obj = Some r \<Longrightarrow> n \<le> m \<Longrightarrow> parseObjectLoop m inp pos obj = Some r"
  by (rule parse_mono_aux [THEN conjunct2, THEN conjunct2, THEN conjunct1, rule_format, rotated])

lemma parseArrayLoop_mono:
  "parseArrayLoop n inp pos arr = Some r \<Longrightarrow> n \<le> m \<Longrightarrow> parseArrayLoop m inp pos arr = Some r"
  by (rule parse_mono_aux [THEN conjunct2, THEN conjunct2, THEN conjunct2, THEN conjunct2,
      THEN conjunct2, rule_format, rotated])

lemma decode_mono:
  "decode n inp = Some r \<Longrightarrow> n \<le> m \<Longrightarrow> decode m inp = Some r"
  unfolding decode_def parse_def
  by (auto split: option.splits dest: parseValue_mono)

lemma decode_deterministic:
  assumes "decode n inp = Some r" and "decode m inp = Some r'"
  shows "r = r'"
  using decode_mono [OF assms(1), of "max n m"] decode_mono [OF assms(2), of "max n m"]
  by simp

section \<open>Positions, blanks and plain text\<close>

declare parseStringLoop.simps [simp del]

lemma currentToken_at:
  "inp = pre @ c # rest \<Longrightarrow> pos = length pre \<Longrightarrow> currentToken inp pos = Some c"
  by (simp add: currentToken_def)

lemma currentToken_end: "pos = length inp \<Longrightarrow> currentToken inp pos = None"
  by (simp add: currentToken_def)

lemma currentToken_head:
  "inp = pre @ rest \<Longrightarrow> pos = length pre \<Longrightarrow>
   currentToken inp pos = (case rest of [] \<Rightarrow> None | c # t \<Rightarrow> Some c)"
  by (cases rest) (simp_all add: currentToken_def)

lemma skipSpaces_stay:
  assumes "noLeadingBlank rest" and "inp = pre @ rest" and "pos = length pre"
  shows "skipSpaces inp pos = pos"
proof -
  have "currentToken inp pos = (case rest of [] \<Rightarrow> None | c # t \<Rightarrow> Some c)"
    using assms(2,3) by (rule currentToken_head)
  with assms(1) show ?thesis
    by (subst skipSpaces.simps)
       (auto simp: noLeadingBlank_def isBlank_def split: list.splits)
qed

lemma skipSpaces_run:
  "list_all isBlank ws \<Longrightarrow> noLeadingBlank rest \<Longrightarrow> inp = pre @ ws @ rest \<Longrightarrow>
   pos = length pre \<Longrightarrow> skipSpaces inp pos = pos + length ws"
proof (induction ws arbitrary: pre pos)
  case Nil
  then show ?case by (simp add: skipSpaces_stay)
next
  case (Cons w ws)
  from Cons.prems have w: "isBlank w" and ws: "list_all isBlank ws" by simp_all
  have tok: "currentToken inp pos = Some w"
    using Cons.prems by (intro currentToken_at [of _ pre _ "ws @ rest"]) simp_all
  have "skipSpaces inp pos = skipSpaces inp (pos + 1)"
    using w tok by (subst skipSpaces.simps) (auto simp: isBlank_def)
  also have "\<dots> = (pos + 1) + length ws"
    using Cons.prems by (intro Cons.IH [OF ws, of "pre @ [w]"]) simp_all
  finally show ?case by simp
qed

lemma consume_expected:
  "inp = pre @ c # rest \<Longrightarrow> pos = length pre \<Longrightarrow>
   consume inp (Some c) pos = Inr (skipSpaces inp (pos + 1))"
  by (simp add: consume_def currentToken_def)

lemma consume_any:
  "consume inp None pos = Inr (skipSpaces inp (pos + 1))"
  by (simp add: consume_def)

lemma parseStringLoop_plain:
  "plainText body \<Longrightarrow> inp = pre @ body @ rest \<Longrightarrow> pos = length pre \<Longrightarrow>
   parseStringLoop (length body + k) inp pos acc =
   parseStringLoop k inp (pos + length body) (acc @ body)"
proof (induction body arbitrary: pre pos acc)
  case Nil
  show ?case by simp
next
  case (Cons c body)
  from Cons.prems have c: "c \<noteq> QUOTE" "c \<noteq> BACKSLASH" and body: "plainText body"
    by (auto simp: plainText_def)
  have tok: "currentToken inp pos = Some c"
    using Cons.prems by (intro currentToken_at [of _ pre _ "body @ rest"]) simp_all
  have "parseStringLoop (length (c # body) + k) inp pos acc
      = parseStringLoop (length body + k) inp (pos + 1) (acc @ [c])"
    using c tok by (simp add: parseStringLoop.simps)
  also have "\<dots> = parseStringLoop k inp ((pos + 1) + length body) ((acc @ [c]) @ body)"
    using Cons.prems by (intro Cons.IH [OF body, of "pre @ [c]"]) simp_all
  finally show ?case by simp
qed

lemma parseStringLoop_quote:
  "inp = pre @ QUOTE # rest \<Longrightarrow> pos = length pre \<Longrightarrow>
   parseStringLoop (Suc k) inp pos acc = Some (Inr (acc, pos))"
  by (simp add: parseStringLoop.simps currentToken_def)

lemma noLeadingBlank_append:
  "noLeadingBlank s \<Longrightarrow> \<not> isBlank c \<Longrightarrow> noLeadingBlank (s @ c # rest)"
  by (cases s) (simp_all add: noLeadingBlank_def)

lemma not_blank_QUOTE: "\<not> isBlank QUOTE"
  by (simp add: isBlank_def token_defs)

lemma parseString_plain:
  assumes ws: "list_all isBlank ws" and body: "plainText body" "noLeadingBlank body"
    and rest: "noLeadingBlank rest"
    and inp: "inp = pre @ QUOTE # ws @ body @ QUOTE # rest" and pos: "pos = length pre"
  shows "parseString (length body + Suc k) inp pos
       = Some (Inr (body, pos + length ws + length body + 2))"
proof -
  have nb: "noLeadingBlank (body @ QUOTE # rest)"
    using body(2) not_blank_QUOTE by (rule noLeadingBlank_append)
  have "skipSpaces inp (pos + 1) = pos + 1 + length ws"
    using ws nb inp pos by (intro skipSpaces_run [of _ _ _ "pre @ [QUOTE]"]) simp_all
  then have open_q: "consume inp (Some QUOTE) pos = Inr (pos + 1 + length ws)"
    using consume_expected [OF inp pos] by simp
  have "parseStringLoop (length body + Suc k) inp (pos + 1 + length ws) []
      = parseStringLoop (Suc k) inp (pos + 1 + length ws + length body) ([] @ body)"
    using inp pos by (intro parseStringLoop_plain [OF body(1), of _ "pre @ QUOTE # ws"]) simp_all
  also have "\<dots> = Some (Inr ([] @ body, pos + 1 + length ws + length body))"
    using inp pos by (intro parseStringLoop_quote [of _ "pre @ QUOTE # ws @ body"]) simp_all
  finally have loop: "parseStringLoop (length body + Suc k) inp (pos + 1 + length ws) []
      = Some (Inr (body, pos + 1 + length ws + length body))" by simp
  have "skipSpaces inp (pos + 1 + length ws + length body + 1)
      = pos + 1 + length ws + length body + 1"
    using rest inp pos
    by (intro skipSpaces_stay [of rest _ "pre @ QUOTE # ws @ body @ [QUOTE]"]) simp_all
  moreover have "consume inp (Some QUOTE) (pos + 1 + length ws + length body)
      = Inr (skipSpaces inp (pos + 1 + length ws + length body + 1))"
    using inp pos by (intro consume_expected [of _ "pre @ QUOTE # ws @ body"]) simp_all
  ultimately have close_q: "consume inp (Some QUOTE) (pos + 1 + length ws + length body)
      = Inr (pos + 1 + length ws + length body + 1)" by simp
  show ?thesis
    using open_q loop close_q by (simp add: parseString_def)
qed

section \<open>Escape sequences\<close>

lemmas char_defs = ch_def QUOTE_def BACKSLASH_def

lemma hex_not_ws: "isHexDigit c \<Longrightarrow> \<not> isWhiteSpace c"
  unfolding isHexDigit_def isDecimalDigit_def isWhiteSpace_def
  by (auto simp: word_le_nat_alt)

lemma hex_not_blank: "isHexDigit c \<Longrightarrow> \<not> isBlank c"
  unfolding isHexDigit_def isDecimalDigit_def isBlank_def ch_def
  by (auto simp: word_le_nat_alt)

lemma hex_not_sign:
  "isHexDigit c \<Longrightarrow> c \<noteq> ch CHR ''-'' \<and> c \<noteq> ch CHR ''+'' \<and> c \<noteq> ch CHR ''x'' \<and> c \<noteq> ch CHR ''X''"
  unfolding isHexDigit_def isDecimalDigit_def ch_def
  by (auto simp: word_le_nat_alt)

lemma simpleEscape_cases:
  assumes "simpleEscape e = Some d"
  obtains "e = QUOTE" "d = QUOTE" | "e = BACKSLASH" "d = BACKSLASH"
    | "e = ch CHR ''/''" "d = ch CHR ''/''" | "e = ch CHR ''b''" "d = 0x08"
    | "e = ch CHR ''f''" "d = 0x0C" | "e = ch CHR ''n''" "d = 0x0A"
    | "e = ch CHR ''r''" "d = 0x0D" | "e = ch CHR ''t''" "d = 0x09"
  using assms by (auto simp: simpleEscape_def split: if_splits)

lemma simpleEscape_not_blank: "simpleEscape e = Some d \<Longrightarrow> \<not> isBlank e"
  by (erule simpleEscape_cases) (simp_all add: isBlank_def token_defs)

lemma parseEscape_simple:
  assumes esc: "simpleEscape e = Some d" and ws: "list_all isBlank ws"
    and rest: "noLeadingBlank rest"
    and inp: "inp = pre @ BACKSLASH # e # ws @ rest" and pos: "pos = length pre"
  shows "parseEscape inp pos = Inr ([d], pos + 2 + length ws)"
proof -
  have "noLeadingBlank (e # ws @ rest)"
    using simpleEscape_not_blank [OF esc] by (simp add: noLeadingBlank_def)
  then have "skipSpaces inp (pos + 1) = pos + 1"
    using inp pos by (intro skipSpaces_stay [of _ _ "pre @ [BACKSLASH]"]) simp_all
  then have c1: "consume inp (Some BACKSLASH) pos = Inr (pos + 1)"
    using consume_expected [OF inp pos] by simp
  have tok: "currentToken inp (pos + 1) = Some e"
    using inp pos by (intro currentToken_at [of _ "pre @ [BACKSLASH]" _ "ws @ rest"]) simp_all
  have "skipSpaces inp (pos + 1 + 1) = pos + 1 + 1 + length ws"
    using ws rest inp pos by (intro skipSpaces_run [of _ _ _ "pre @ [BACKSLASH, e]"]) simp_all
  then have c2: "consume inp None (pos + 1) = Inr (pos + 2 + length ws)"
    by (simp add: consume_any)
  from esc show ?thesis
    by (rule simpleEscape_cases) (use c1 tok c2 in \<open>simp_all add: parseEscape_def char_defs\<close>)
qed

lemma parseStringLoop_escape:
  assumes esc: "simpleEscape e = Some d" and ws: "list_all isBlank ws"
    and rest: "noLeadingBlank rest"
    and inp: "inp = pre @ BACKSLASH # e # ws @ rest" and pos: "pos = length pre"
  shows "parseStringLoop (Suc k) inp pos acc = parseStringLoop k inp (pos + 2 + length ws) (acc @ [d])"
proof -
  have tok: "currentToken inp pos = Some BACKSLASH"
    using inp pos by (rule currentToken_at)
  show ?thesis
    using parseEscape_simple [OF assms] tok
    by (simp add: parseStringLoop.simps char_defs)
qed

lemma parseInt16_hex:
  assumes h: "list_all isHexDigit h" and len: "h \<noteq> []"
  shows "parseInt16 h = Some (hexValue 0 h)"
proof -
  from len obtain c t where ct: "h = c # t" by (cases h) auto
  with h have c: "isHexDigit c" and t: "list_all isHexDigit t" by simp_all
  have dw: "dropWhile isWhiteSpace h = h"
    using hex_not_ws [OF c] ct by simp
  have sgn: "(case h of c # r \<Rightarrow> if c = ch CHR ''-'' then - 1 else 1 | [] \<Rightarrow> (1::int)) = 1"
    using hex_not_sign [OF c] ct by simp
  have t1: "(case h of c # r \<Rightarrow> if c = ch CHR ''-'' \<or> c = ch CHR ''+'' then r else h
             | [] \<Rightarrow> h) = h"
    using hex_not_sign [OF c] ct by simp
  have t2: "(case h of z # x # r \<Rightarrow>
                if z = ch CHR ''0'' \<and> (x = ch CHR ''x'' \<or> x = ch CHR ''X'') then r else h
              | _ \<Rightarrow> h) = h"
    using h by (auto split: list.splits dest: hex_not_sign)
  have tw: "takeWhile isHexDigit h = h"
    using h by (simp add: list_all_iff)
  have "parseInt16 h = (if h = [] then None else Some (1 * hexValue 0 h))"
    unfolding parseInt16_def Let_def dw sgn t1 t2 tw ..
  with len show ?thesis by simp
qed

lemma parseEscape_unicode:
  assumes h: "list_all isHexDigit h" and len: "length h = 4"
    and inp: "inp = pre @ BACKSLASH # ch CHR ''u'' # h @ rest" and pos: "pos = length pre"
  shows "parseEscape inp pos = Inr ([word_of_int (hexValue 0 h)], pos + 6)"
proof -
  from len obtain c t where ct: "h = c # t" by (cases h) auto
  with h have c: "isHexDigit c" by simp
  have "\<not> isBlank (ch CHR ''u'')" by (simp add: isBlank_def ch_def)
  then have "noLeadingBlank (ch CHR ''u'' # h @ rest)" by (simp add: noLeadingBlank_def)
  then have "skipSpaces inp (pos + 1) = pos + 1"
    using inp pos by (intro skipSpaces_stay [of _ _ "pre @ [BACKSLASH]"]) simp_all
  then have c1: "consume inp (Some BACKSLASH) pos = Inr (pos + 1)"
    using consume_expected [OF inp pos] by simp
  have tok: "currentToken inp (pos + 1) = Some (ch CHR ''u'')"
    using inp pos by (intro currentToken_at [of _ "pre @ [BACKSLASH]" _ "h @ rest"]) simp_all
  have "noLeadingBlank (h @ rest)"
    using hex_not_blank [OF c] ct by (simp add: noLeadingBlank_def)
  then have "skipSpaces inp (pos + 1 + 1) = pos + 1 + 1"
    using inp pos by (intro skipSpaces_stay [of _ _ "pre @ [BACKSLASH, ch CHR ''u'']"]) simp_all
  then have c2: "consume inp None (pos + 1) = Inr (pos + 2)"
    by (simp add: consume_any)
  have sub: "substr inp (pos + 2) 4 = h"
    using inp pos len by (simp add: substr_def)
  have pi: "parseInt16 h = Some (hexValue 0 h)"
    using h len by (intro parseInt16_hex) auto
  show ?thesis
    using c1 tok c2 sub pi by (simp add: parseEscape_def char_defs)
qed

lemma parseStringLoop_unicode:
  assumes h: "list_all isHexDigit h" and len: "length h = 4"
    and inp: "inp = pre @ BACKSLASH # ch CHR ''u'' # h @ rest" and pos: "pos = length pre"
  shows "parseStringLoop (Suc k) inp pos acc =
         parseStringLoop k inp (pos + 6) (acc @ [word_of_int (hexValue 0 h)])"
proof -
  have tok: "currentToken inp pos = Some BACKSLASH"
    using inp pos by (rule currentToken_at)
  show ?thesis
    using parseEscape_unicode [OF assms] tok
    by (simp add: parseStringLoop.simps char_defs)
qed

lemma consumeWhitespace_stay:
  "(case currentToken inp pos of None \<Rightarrow> True | Some c \<Rightarrow> \<not> isWhiteSpace c) \<Longrightarrow>
   consumeWhitespace inp pos = pos"
  by (subst consumeWhitespace.simps) (auto split: option.splits)

lemma decode_string_literal:
  assumes "parseString n (QUOTE # t) 0 = Some (Inr (s, Suc (length t)))"
  shows "decode (Suc n) (QUOTE # t) = Some (Inr (JString s))"
proof -
  let ?inp = "QUOTE # t"
  have tok0: "currentToken ?inp 0 = Some QUOTE" by (simp add: currentToken_def)
  have start: "consumeWhitespace ?inp 0 = 0"
    by (rule consumeWhitespace_stay) (simp add: tok0, simp add: isWhiteSpace_def QUOTE_def)
  have fin: "consumeWhitespace ?inp (Suc (length t)) = Suc (length t)"
    by (rule consumeWhitespace_stay) (simp add: currentToken_def)
  have v: "parseValue (Suc n) ?inp 0 = Some (Inr (JString s, Suc (length t)))"
    using assms tok0 by (simp add: char_defs)
  show ?thesis
    using start v fin by (simp add: decode_def parse_def hasNext_def currentToken_def)
qed

lemma blank_plain: "list_all isBlank ws \<Longrightarrow> plainText ws"
  by (induction ws) (auto simp: plainText_def isBlank_def char_defs)

lemma plainText_append: "plainText a \<Longrightarrow> plainText b \<Longrightarrow> plainText (a @ b)"
  by (auto simp: plainText_def)

lemma parseString_closed:
  assumes start: "skipSpaces (QUOTE # t @ [QUOTE]) 1 = p0"
    and loop: "parseStringLoop n (QUOTE # t @ [QUOTE]) p0 [] = Some (Inr (s, Suc (length t)))"
  shows "parseString n (QUOTE # t @ [QUOTE]) 0 = Some (Inr (s, Suc (length (t @ [QUOTE]))))"
proof -
  let ?inp = "QUOTE # t @ [QUOTE]"
  have c1: "consume ?inp (Some QUOTE) 0 = Inr p0"
    using start by (simp add: consume_def currentToken_def)
  have "skipSpaces ?inp (Suc (length t) + 1) = Suc (length t) + 1"
    by (rule skipSpaces_stay [of "[]" _ ?inp]) (simp_all add: noLeadingBlank_def)
  moreover have "consume ?inp (Some QUOTE) (Suc (length t))
      = Inr (skipSpaces ?inp (Suc (length t) + 1))"
    by (rule consume_expected [of _ "QUOTE # t" _ "[]"]) simp_all
  ultimately have c2: "consume ?inp (Some QUOTE) (Suc (length t)) = Inr (Suc (length t) + 1)"
    by simp
  show ?thesis
    using c1 loop c2 by (simp add: parseString_def)
qed


section \<open>Digits and numbers\<close>

lemma digit_cases: "d < (10::nat) \<Longrightarrow> d = 0 \<or> d = 1 \<or> d = 2 \<or> d = 3 \<or> d = 4 \<or> d = 5 \<or> d = 6 \<or> d = 7 \<or> d = 8 \<or> d = 9"
  by arith

lemma digit_char:
  assumes "d < (10::nat)"
  shows "isDecimalDigit (0x30 + of_nat d)"
    and "uint (0x30 + of_nat d :: code_unit) - 0x30 = int d"
    and "\<not> isBlank (0x30 + of_nat d)"
    and "(0x30 + of_nat d :: code_unit) \<noteq> ch CHR ''-''"
    and "d \<noteq> 0 \<Longrightarrow> ch CHR ''1'' \<le> (0x30 + of_nat d :: code_unit) \<and> (0x30 + of_nat d :: code_unit) \<le> ch CHR ''9''"
    and "(0x30 + of_nat d :: code_unit) = ch CHR ''0'' \<longleftrightarrow> d = 0"
  using digit_cases [OF assms]
  by (auto simp: isDecimalDigit_def isBlank_def ch_def)

lemma digitsOf_digits: "list_all isDecimalDigit (digitsOf n)"
  by (induction n rule: digitsOf.induct) (subst digitsOf.simps, simp add: digit_char)

lemma digitsOf_nonempty: "digitsOf n \<noteq> []"
  by (subst digitsOf.simps) simp

lemma digitsValue_snoc:
  "digitsValue acc (xs @ [c]) = 10 * digitsValue acc xs + (uint c - 0x30)"
  by (induction xs arbitrary: acc) simp_all

lemma digitsValue_digitsOf: "digitsValue 0 (digitsOf n) = int n"
proof (induction n rule: digitsOf.induct)
  case (1 n)
  show ?case
  proof (cases "n < 10")
    case True
    then show ?thesis by (subst digitsOf.simps) (simp add: digit_char)
  next
    case False
    then have "digitsValue 0 (digitsOf n) = 10 * int (n div 10) + int (n mod 10)"
      using 1 by (subst digitsOf.simps) (simp add: digitsValue_snoc digit_char)
    moreover have "10 * int (n div 10) + int (n mod 10) = int n"
      by (simp add: zdiv_int zmod_int)
    ultimately show ?thesis by simp
  qed
qed

lemma digitsOf_hd:
  "hd (digitsOf n) = ch CHR ''0'' \<longleftrightarrow> n = 0"
proof (induction n rule: digitsOf.induct)
  case (1 n)
  show ?case
  proof (cases "n < 10")
    case True
    then show ?thesis by (subst digitsOf.simps) (simp add: digit_char)
  next
    case False
    then have "hd (digitsOf n) = hd (digitsOf (n div 10))"
      by (subst digitsOf.simps) (simp add: digitsOf_nonempty)
    with 1 False show ?thesis by auto
  qed
qed


lemma parseFloat_digits:
  "m \<le> 9007199254740992 \<Longrightarrow> parseFloat (digitsOf m) = JNumber (int m)"
proof -
  assume m: "m \<le> 9007199254740992"
  obtain c t where ct: "digitsOf m = c # t"
    using digitsOf_nonempty [of m] by (cases "digitsOf m") auto
  have "isDecimalDigit c" using digitsOf_digits [of m] ct by simp
  then have c: "c \<noteq> ch CHR ''-''" by (auto simp: isDecimalDigit_def ch_def)
  have "parseFloat (c # t) = JNumber (int m)"
    using c m digitsOf_digits [of m] digitsValue_digitsOf [of m]
    unfolding ct parseFloat_def by simp
  then show ?thesis by (simp add: ct)
qed

lemma parseFloat_minus_digits:
  "0 < m \<Longrightarrow> m \<le> 9007199254740992 \<Longrightarrow>
   parseFloat (ch CHR ''-'' # digitsOf m) = JNumber (- int m)"
  using digitsOf_digits [of m] digitsValue_digitsOf [of m] digitsOf_nonempty [of m]
  by (simp add: parseFloat_def)

lemma digit_dispatch:
  assumes "d < (10::nat)"
  shows "(0x30 + of_nat d :: code_unit) \<in> set (str ''0123456789'')"
  using digit_cases [OF assms] by (auto simp: str_simps ch_def)

lemma digit_not_special:
  "isDecimalDigit c \<Longrightarrow>
   c \<noteq> ch CHR ''{'' \<and> c \<noteq> ch CHR ''['' \<and> c \<noteq> QUOTE \<and> c \<noteq> ch CHR ''-'' \<and>
   c \<noteq> ch CHR '','' \<and> c \<noteq> ch CHR '']'' \<and> c \<noteq> ch CHR ''}'' \<and> \<not> isBlank c"
  unfolding isDecimalDigit_def isBlank_def char_defs
  by (auto simp: word_le_nat_alt)

lemma digitsOf_hd_form: "\<exists>d<10. hd (digitsOf n) = 0x30 + of_nat d"
proof (induction n rule: digitsOf.induct)
  case (1 n)
  show ?case
  proof (cases "n < 10")
    case True
    then show ?thesis by (subst digitsOf.simps) auto
  next
    case False
    then have "hd (digitsOf n) = hd (digitsOf (n div 10))"
      by (subst digitsOf.simps) (simp add: digitsOf_nonempty)
    with 1 False show ?thesis by auto
  qed
qed

lemma digitsOf_hd_dispatch: "hd (digitsOf n) \<in> set (str ''0123456789'')"
  using digitsOf_hd_form [of n] digit_dispatch by auto

lemma digitsOf_hd_nonzero:
  "0 < n \<Longrightarrow> ch CHR ''1'' \<le> hd (digitsOf n) \<and> hd (digitsOf n) \<le> ch CHR ''9''"
proof -
  assume n: "0 < n"
  obtain d where d: "d < 10" "hd (digitsOf n) = 0x30 + of_nat d"
    using digitsOf_hd_form [of n] by auto
  with n digitsOf_hd [of n] digit_char(6) [OF d(1)] have "d \<noteq> 0" by auto
  with digit_char(5) [OF d(1)] d(2) show ?thesis by simp
qed

lemma digitsOf_zero: "digitsOf 0 = [ch CHR ''0'']"
  by (subst digitsOf.simps) (simp add: ch_def)

lemma closes_stops: "closes rest \<Longrightarrow> stops rest"
  by (auto simp: closes_def stops_def isDecimalDigit_def isBlank_def ch_def split: list.splits)

lemma closes_noLeadingBlank: "closes rest \<Longrightarrow> noLeadingBlank rest"
  by (auto simp: closes_def noLeadingBlank_def isBlank_def ch_def split: list.splits)

lemma stops_noLeadingBlank: "stops rest \<Longrightarrow> noLeadingBlank rest"
  by (auto simp: stops_def noLeadingBlank_def split: list.splits)

lemma digits_noLeadingBlank:
  "list_all isDecimalDigit ds \<Longrightarrow> stops rest \<Longrightarrow> noLeadingBlank (ds @ rest)"
proof (cases ds)
  case Nil
  assume "stops rest"
  with Nil show ?thesis by (simp add: stops_noLeadingBlank)
next
  case (Cons c t)
  assume "list_all isDecimalDigit ds"
  with Cons have "\<not> isBlank c" using digit_not_special [of c] by simp
  with Cons show ?thesis by (simp add: noLeadingBlank_def)
qed

lemma digitsLoop_run:
  "list_all isDecimalDigit ds \<Longrightarrow> stops rest \<Longrightarrow> inp = pre @ ds @ rest \<Longrightarrow>
   pos = length pre \<Longrightarrow> digitsLoop inp pos acc = (acc @ ds, pos + length ds)"
proof (induction ds arbitrary: pre pos acc)
  case Nil
  then have "currentToken inp pos = (case rest of [] \<Rightarrow> None | c # t \<Rightarrow> Some c)"
    by (intro currentToken_head [of _ pre]) simp_all
  with Nil.prems(2) show ?case
    by (subst digitsLoop.simps) (auto simp: stops_def isDecimalDigit_def ch_def split: list.splits)
next
  case (Cons c ds)
  from Cons.prems have c: "isDecimalDigit c" and ds: "list_all isDecimalDigit ds" by simp_all
  have tok: "currentToken inp pos = Some c"
    using Cons.prems by (intro currentToken_at [of _ pre _ "ds @ rest"]) simp_all
  have skip: "skipSpaces inp (pos + 1) = pos + 1"
    using digits_noLeadingBlank [OF ds Cons.prems(2)] Cons.prems
    by (intro skipSpaces_stay [of "ds @ rest" _ "pre @ [c]"]) simp_all
  have "digitsLoop inp pos acc = digitsLoop inp (pos + 1) (acc @ [c])"
    using c tok skip by (subst digitsLoop.simps) (simp add: isDecimalDigit_def ch_def)
  also have "\<dots> = ((acc @ [c]) @ ds, (pos + 1) + length ds)"
    using Cons.prems by (intro Cons.IH [OF ds, of "pre @ [c]"]) simp_all
  finally show ?case by simp
qed

lemma parseDigits_digitsOf:
  assumes rest: "stops rest" and inp: "inp = pre @ digitsOf m @ rest" and pos: "pos = length pre"
  shows "parseDigits inp pos = Inr (digitsOf m, pos + length (digitsOf m))"
proof (cases "m = 0")
  case True
  have tok: "currentToken inp pos = Some (ch CHR ''0'')"
    using inp pos True by (intro currentToken_at [of _ pre _ rest]) (simp_all add: digitsOf_zero)
  have skip: "skipSpaces inp (pos + 1) = pos + 1"
    using stops_noLeadingBlank [OF rest] inp pos True
    by (intro skipSpaces_stay [of rest _ "pre @ [ch CHR ''0'']"]) (simp_all add: digitsOf_zero)
  show ?thesis
    using tok skip True by (simp add: parseDigits_def consume_any digitsOf_zero)
next
  case False
  obtain c t where ct: "digitsOf m = c # t"
    using digitsOf_nonempty [of m] by (cases "digitsOf m") auto
  have c0: "c \<noteq> ch CHR ''0''" using digitsOf_hd [of m] False ct by simp
  have c19: "ch CHR ''1'' \<le> c \<and> c \<le> ch CHR ''9''"
    using digitsOf_hd_nonzero [of m] False ct by simp
  have t: "list_all isDecimalDigit t" using digitsOf_digits [of m] ct by simp
  have tok: "currentToken inp pos = Some c"
    using inp pos ct by (intro currentToken_at [of _ pre _ "t @ rest"]) simp_all
  have skip: "skipSpaces inp (pos + 1) = pos + 1"
    using digits_noLeadingBlank [OF t rest] inp pos ct
    by (intro skipSpaces_stay [of "t @ rest" _ "pre @ [c]"]) simp_all
  have loop: "digitsLoop inp (pos + 1) [c] = ([c] @ t, (pos + 1) + length t)"
    using t rest inp pos ct by (intro digitsLoop_run [of _ _ _ "pre @ [c]"]) simp_all
  show ?thesis
    using tok skip loop c0 c19 by (simp add: parseDigits_def consume_any ct)
qed

lemma closes_not_number_part:
  "closes rest \<Longrightarrow> inp = pre @ rest \<Longrightarrow> pos = length pre \<Longrightarrow>
   currentToken inp pos \<noteq> Some (ch CHR ''.'') \<and> currentToken inp pos \<noteq> Some (ch CHR ''e'') \<and>
   currentToken inp pos \<noteq> Some (ch CHR ''E'')"
  by (cases rest) (auto simp: closes_def currentToken_def ch_def)

lemma parseNumber_int:
  assumes n: "- 9007199254740992 \<le> n" "n \<le> 9007199254740992"
    and rest: "closes rest"
    and inp: "inp = pre @ numberToString n @ rest" and pos: "pos = length pre"
  shows "parseNumber inp pos = Inr (JNumber n, pos + length (numberToString n))"
proof (cases "n < 0")
  case False
  let ?ds = "digitsOf (nat n)"
  have ntext: "numberToString n = ?ds" using False by (simp add: numberToString_def)
  obtain c t where ct: "?ds = c # t"
    using digitsOf_nonempty [of "nat n"] by (cases ?ds) auto
  have "isDecimalDigit c" using digitsOf_digits [of "nat n"] ct by simp
  then have cm: "c \<noteq> ch CHR ''-''" using digit_not_special by blast
  have tok: "currentToken inp pos = Some c"
    using inp pos ct ntext by (intro currentToken_at [of _ pre _ "t @ rest"]) simp_all
  have pd: "parseDigits inp pos = Inr (?ds, pos + length ?ds)"
    using closes_stops [OF rest] inp pos ntext by (intro parseDigits_digitsOf) simp_all
  have after: "currentToken inp (pos + length ?ds) \<noteq> Some (ch CHR ''.'') \<and>
      currentToken inp (pos + length ?ds) \<noteq> Some (ch CHR ''e'') \<and>
      currentToken inp (pos + length ?ds) \<noteq> Some (ch CHR ''E'')"
    using rest inp pos ntext by (intro closes_not_number_part [of rest _ "pre @ ?ds"]) simp_all
  have pf: "parseFloat ?ds = JNumber n"
    using parseFloat_digits [of "nat n"] n False by simp
  show ?thesis
    using tok cm pd after pf by (simp add: parseNumber_def ntext)
next
  case True
  let ?m = "nat (- n)"
  let ?ds = "digitsOf ?m"
  have ntext: "numberToString n = ch CHR ''-'' # ?ds" using True by (simp add: numberToString_def)
  have tok: "currentToken inp pos = Some (ch CHR ''-'')"
    using inp pos ntext by (intro currentToken_at [of _ pre _ "?ds @ rest"]) simp_all
  have skip: "skipSpaces inp (pos + 1) = pos + 1"
    using digits_noLeadingBlank [OF digitsOf_digits closes_stops [OF rest], of ?m] inp pos ntext
    by (intro skipSpaces_stay [of "?ds @ rest" _ "pre @ [ch CHR ''-'']"]) simp_all
  have pd: "parseDigits inp (pos + 1) = Inr (?ds, (pos + 1) + length ?ds)"
    using closes_stops [OF rest] inp pos ntext
    by (intro parseDigits_digitsOf [of _ _ "pre @ [ch CHR ''-'']"]) simp_all
  have after: "currentToken inp (pos + 1 + length ?ds) \<noteq> Some (ch CHR ''.'') \<and>
      currentToken inp (pos + 1 + length ?ds) \<noteq> Some (ch CHR ''e'') \<and>
      currentToken inp (pos + 1 + length ?ds) \<noteq> Some (ch CHR ''E'')"
    using rest inp pos ntext
    by (intro closes_not_number_part [of rest _ "pre @ ch CHR ''-'' # ?ds"]) simp_all
  have pf: "parseFloat (ch CHR ''-'' # ?ds) = JNumber n"
    using parseFloat_minus_digits [of ?m] n True by simp
  show ?thesis
    using tok skip pd after pf by (simp add: parseNumber_def ntext consume_def str_simps)
qed

subsection \<open>Number texts\<close>

lemma digit_nonzero_range:
  "isDecimalDigit c \<Longrightarrow> c \<noteq> ch CHR ''0'' \<Longrightarrow> ch CHR ''1'' \<le> c \<and> c \<le> ch CHR ''9''"
  unfolding isDecimalDigit_def ch_def
  by (auto simp: word_le_nat_alt word_unat_eq_iff)

lemma digitRun_digits: "digitRun ds \<Longrightarrow> ds \<noteq> [] \<and> list_all isDecimalDigit ds"
  by (auto simp: digitRun_def isDecimalDigit_def ch_def)

lemma parseDigits_run:
  assumes run: "digitRun ds" and rest: "stops rest"
    and inp: "inp = pre @ ds @ rest" and pos: "pos = length pre"
  shows "parseDigits inp pos = Inr (ds, pos + length ds)"
proof (cases "ds = [ch CHR ''0'']")
  case True
  have tok: "currentToken inp pos = Some (ch CHR ''0'')"
    using inp pos True by (intro currentToken_at [of _ pre _ rest]) simp_all
  have skip: "skipSpaces inp (pos + 1) = pos + 1"
    using stops_noLeadingBlank [OF rest] inp pos True
    by (intro skipSpaces_stay [of rest _ "pre @ [ch CHR ''0'']"]) simp_all
  show ?thesis
    using tok skip True by (simp add: parseDigits_def consume_any)
next
  case False
  with run obtain c t where ct: "ds = c # t" and c0: "c \<noteq> ch CHR ''0''"
    and c: "isDecimalDigit c" and t: "list_all isDecimalDigit t"
    by (cases ds) (auto simp: digitRun_def)
  have c19: "ch CHR ''1'' \<le> c \<and> c \<le> ch CHR ''9''"
    using c c0 by (rule digit_nonzero_range)
  have tok: "currentToken inp pos = Some c"
    using inp pos ct by (intro currentToken_at [of _ pre _ "t @ rest"]) simp_all
  have skip: "skipSpaces inp (pos + 1) = pos + 1"
    using digits_noLeadingBlank [OF t rest] inp pos ct
    by (intro skipSpaces_stay [of "t @ rest" _ "pre @ [c]"]) simp_all
  have loop: "digitsLoop inp (pos + 1) [c] = ([c] @ t, (pos + 1) + length t)"
    using t rest inp pos ct by (intro digitsLoop_run [of _ _ _ "pre @ [c]"]) simp_all
  show ?thesis
    using tok skip loop c0 c19 by (simp add: parseDigits_def consume_any ct)
qed

lemma digitRun_noLeadingBlank: "digitRun ds \<Longrightarrow> noLeadingBlank (ds @ rest)"
proof -
  assume "digitRun ds"
  then obtain c t where "ds = c # t" "isDecimalDigit c"
    using digitRun_digits [of ds] by (cases ds) auto
  then show ?thesis using digit_not_special [of c] by (simp add: noLeadingBlank_def)
qed

lemma exponent_stage:
  assumes ex: "lexemeExponent ex" and rest: "closes rest"
    and inp: "inp = pre @ ex @ rest" and p2: "p2 = length pre"
  shows "(if currentToken inp p2 = Some (ch CHR ''e'') \<or> currentToken inp p2 = Some (ch CHR ''E'')
          then bindE (consume inp None p2) (\<lambda>p3.
               bindE (if currentToken inp p3 = Some (ch CHR ''+'') \<or>
                         currentToken inp p3 = Some (ch CHR ''-'')
                      then bindE (consume inp None p3) (\<lambda>p4.
                             Inr (s2 @ [inp ! p2] @ [inp ! p3], p4))
                      else Inr (s2 @ [inp ! p2], p3)) (\<lambda>(s4, p4).
               bindE (parseDigits inp p4) (\<lambda>(d3, p5). Inr (s4 @ d3, p5))))
          else Inr (s2, p2))
         = Inr (s2 @ ex, p2 + length ex)"
proof (cases ex)
  case Nil
  have "currentToken inp p2 \<noteq> Some (ch CHR ''e'') \<and> currentToken inp p2 \<noteq> Some (ch CHR ''E'')"
    using closes_not_number_part [OF rest, of inp pre p2] inp p2 Nil by simp
  with Nil show ?thesis by simp
next
  case (Cons c t)
  with ex have c: "c = ch CHR ''e'' \<or> c = ch CHR ''E''" and t: "t \<noteq> []"
    by (auto simp: lexemeExponent_def split: list.splits)
  then obtain d u where du: "t = d # u" by (cases t) auto
  have tok: "currentToken inp p2 = Some c"
    using inp p2 Cons by (intro currentToken_at [of _ pre _ "t @ rest"]) simp_all
  have at2: "inp ! p2 = c" using inp p2 Cons by simp
  have tok3: "currentToken inp (p2 + 1) = Some d"
    using inp p2 Cons du by (intro currentToken_at [of _ "pre @ [c]" _ "u @ rest"]) simp_all
  have at3: "inp ! (p2 + 1) = d"
    using inp p2 Cons du by (simp add: nth_append)
  show ?thesis
  proof (cases "d = ch CHR ''+'' \<or> d = ch CHR ''-''")
    case True
    with ex Cons du have run: "digitRun u" by (auto simp: lexemeExponent_def)
    have "\<not> isBlank d" using True by (auto simp: isBlank_def ch_def)
    then have skip2: "skipSpaces inp (p2 + 1) = p2 + 1"
      using inp p2 Cons du
      by (intro skipSpaces_stay [of "t @ rest" _ "pre @ [c]"]) (simp_all add: noLeadingBlank_def)
    have skip3: "skipSpaces inp (p2 + 1 + 1) = p2 + 1 + 1"
      using digitRun_noLeadingBlank [OF run, of rest] inp p2 Cons du
      by (intro skipSpaces_stay [of "u @ rest" _ "pre @ [c, d]"]) simp_all
    have pd: "parseDigits inp (p2 + 1 + 1) = Inr (u, (p2 + 1 + 1) + length u)"
      using run closes_stops [OF rest] inp p2 Cons du
      by (intro parseDigits_run [of _ _ _ "pre @ [c, d]"]) simp_all
    show ?thesis
      using tok c at2 tok3 at3 True skip2 skip3 pd Cons du
      by (auto simp: consume_any)
  next
    case False
    with ex Cons du have run: "digitRun t" by (auto simp: lexemeExponent_def)
    have skip2: "skipSpaces inp (p2 + 1) = p2 + 1"
      using digitRun_noLeadingBlank [OF run, of rest] inp p2 Cons
      by (intro skipSpaces_stay [of "t @ rest" _ "pre @ [c]"]) simp_all
    have pd: "parseDigits inp (p2 + 1) = Inr (t, (p2 + 1) + length t)"
      using run closes_stops [OF rest] inp p2 Cons
      by (intro parseDigits_run [of _ _ _ "pre @ [c]"]) simp_all
    show ?thesis
      using tok c at2 tok3 False skip2 pd Cons
      by (auto simp: consume_any)
  qed
qed

lemma lexemeExponent_stops: "lexemeExponent ex \<Longrightarrow> closes rest \<Longrightarrow> stops (ex @ rest)"
proof (cases ex)
  case Nil
  assume "closes rest"
  with Nil show ?thesis by (simp add: closes_stops)
next
  case (Cons c t)
  assume "lexemeExponent ex"
  with Cons show ?thesis
    by (auto simp: lexemeExponent_def stops_def isDecimalDigit_def isBlank_def ch_def)
qed

lemma fraction_stage:
  assumes r: "lexemeFraction r" and rest: "closes rest"
    and inp: "inp = pre @ r @ rest" and p1: "p1 = length pre"
  shows "bindE (if currentToken inp p1 = Some (ch CHR ''.'')
                then bindE (consume inp (Some (ch CHR ''.'')) p1) (\<lambda>p.
                     bindE (parseDigits inp p) (\<lambda>(d2, p'). Inr (s0 @ d1 @ str ''.'' @ d2, p')))
                else Inr (s0 @ d1, p1)) (\<lambda>(s2, p2).
         bindE (if currentToken inp p2 = Some (ch CHR ''e'') \<or> currentToken inp p2 = Some (ch CHR ''E'')
                then bindE (consume inp None p2) (\<lambda>p3.
                     bindE (if currentToken inp p3 = Some (ch CHR ''+'') \<or>
                               currentToken inp p3 = Some (ch CHR ''-'')
                            then bindE (consume inp None p3) (\<lambda>p4.
                                   Inr (s2 @ [inp ! p2] @ [inp ! p3], p4))
                            else Inr (s2 @ [inp ! p2], p3)) (\<lambda>(s4, p4).
                     bindE (parseDigits inp p4) (\<lambda>(d3, p5). Inr (s4 @ d3, p5))))
                else Inr (s2, p2)) K)
         = K (s0 @ d1 @ r, p1 + length r)"
proof (cases "\<exists>t. r = ch CHR ''.'' # t")
  case True
  then obtain t where t: "r = ch CHR ''.'' # t" by blast
  let ?fp = "takeWhile isDecimalDigit t"
  let ?ex = "dropWhile isDecimalDigit t"
  from r t have run: "digitRun ?fp" and ex: "lexemeExponent ?ex"
    by (simp_all add: lexemeFraction_def)
  have split: "t = ?fp @ ?ex" by simp
  have inp': "inp = pre @ ch CHR ''.'' # ?fp @ ?ex @ rest"
    using inp t by simp
  have tok: "currentToken inp p1 = Some (ch CHR ''.'')"
    using inp' p1 by (rule currentToken_at)
  have skip: "skipSpaces inp (p1 + 1) = p1 + 1"
    using digitRun_noLeadingBlank [OF run, of "?ex @ rest"] inp' p1
    by (intro skipSpaces_stay [of "?fp @ ?ex @ rest" _ "pre @ [ch CHR ''.'']"]) simp_all
  have c1: "consume inp (Some (ch CHR ''.'')) p1 = Inr (p1 + 1)"
    using consume_expected [OF inp' p1] skip by simp
  have pd: "parseDigits inp (p1 + 1) = Inr (?fp, (p1 + 1) + length ?fp)"
    using run lexemeExponent_stops [OF ex rest] inp' p1
    by (intro parseDigits_run [of _ _ _ "pre @ [ch CHR ''.'']"]) simp_all
  have es: "(if currentToken inp (p1 + 1 + length ?fp) = Some (ch CHR ''e'') \<or>
                currentToken inp (p1 + 1 + length ?fp) = Some (ch CHR ''E'')
             then bindE (consume inp None (p1 + 1 + length ?fp)) (\<lambda>p3.
                  bindE (if currentToken inp p3 = Some (ch CHR ''+'') \<or>
                            currentToken inp p3 = Some (ch CHR ''-'')
                         then bindE (consume inp None p3) (\<lambda>p4.
                                Inr ((s0 @ d1 @ str ''.'' @ ?fp) @ [inp ! (p1 + 1 + length ?fp)]
                                       @ [inp ! p3], p4))
                         else Inr ((s0 @ d1 @ str ''.'' @ ?fp) @ [inp ! (p1 + 1 + length ?fp)], p3))
                    (\<lambda>(s4, p4).
                  bindE (parseDigits inp p4) (\<lambda>(d3, p5). Inr (s4 @ d3, p5))))
             else Inr (s0 @ d1 @ str ''.'' @ ?fp, p1 + 1 + length ?fp))
            = Inr ((s0 @ d1 @ str ''.'' @ ?fp) @ ?ex, (p1 + 1 + length ?fp) + length ?ex)"
    using inp' p1
    by (intro exponent_stage [OF ex rest, of _ "pre @ ch CHR ''.'' # ?fp"]) simp_all
  have "length ?fp + length ?ex = length t"
    by (metis length_append takeWhile_dropWhile_id)
  then have len: "(p1 + 1 + length ?fp) + length ?ex = p1 + length r"
    using t by simp
  have tx: "(s0 @ d1 @ str ''.'' @ ?fp) @ ?ex = s0 @ d1 @ r"
    using t by (simp add: str_simps)
  show ?thesis
    by (simp only: tok c1 pd es bindE.simps prod.case if_True simp_thms len tx)
next
  case False
  with r have ex: "lexemeExponent r"
    by (cases r) (auto simp: lexemeFraction_def lexemeExponent_def)
  have tok: "currentToken inp p1 \<noteq> Some (ch CHR ''.'')"
  proof (cases r)
    case Nil
    then show ?thesis
      using closes_not_number_part [OF rest, of inp pre p1] inp p1 by simp
  next
    case (Cons c t)
    with False have "c \<noteq> ch CHR ''.''" by simp
    moreover have "currentToken inp p1 = Some c"
      using inp p1 Cons by (intro currentToken_at [of _ pre _ "t @ rest"]) simp_all
    ultimately show ?thesis by simp
  qed
  have es: "(if currentToken inp p1 = Some (ch CHR ''e'') \<or> currentToken inp p1 = Some (ch CHR ''E'')
             then bindE (consume inp None p1) (\<lambda>p3.
                  bindE (if currentToken inp p3 = Some (ch CHR ''+'') \<or>
                            currentToken inp p3 = Some (ch CHR ''-'')
                         then bindE (consume inp None p3) (\<lambda>p4.
                                Inr ((s0 @ d1) @ [inp ! p1] @ [inp ! p3], p4))
                         else Inr ((s0 @ d1) @ [inp ! p1], p3)) (\<lambda>(s4, p4).
                  bindE (parseDigits inp p4) (\<lambda>(d3, p5). Inr (s4 @ d3, p5))))
             else Inr (s0 @ d1, p1))
            = Inr ((s0 @ d1) @ r, p1 + length r)"
    using inp p1 by (intro exponent_stage [OF ex rest, of _ pre]) simp_all
  have tx: "(s0 @ d1) @ r = s0 @ d1 @ r" by simp
  show ?thesis
    by (simp only: tok es bindE.simps prod.case if_False simp_thms tx)
qed

lemma lexemeFraction_stops: "lexemeFraction r \<Longrightarrow> closes rest \<Longrightarrow> stops (r @ rest)"
proof (cases r)
  case Nil
  assume "closes rest"
  with Nil show ?thesis by (simp add: closes_stops)
next
  case (Cons c t)
  assume "lexemeFraction r"
  with Cons show ?thesis
    by (auto simp: lexemeFraction_def lexemeExponent_def stops_def isDecimalDigit_def
        isBlank_def ch_def split: if_splits)
qed

lemma unsigned_stage:
  assumes u: "unsignedLexeme u" and rest: "closes rest"
    and inp: "inp = pre @ u @ rest" and p0: "p0 = length pre"
  shows "bindE (parseDigits inp p0) (\<lambda>(d1, p1).
         bindE (if currentToken inp p1 = Some (ch CHR ''.'')
                then bindE (consume inp (Some (ch CHR ''.'')) p1) (\<lambda>p.
                     bindE (parseDigits inp p) (\<lambda>(d2, p'). Inr (s0 @ d1 @ str ''.'' @ d2, p')))
                else Inr (s0 @ d1, p1)) (\<lambda>(s2, p2).
         bindE (if currentToken inp p2 = Some (ch CHR ''e'') \<or> currentToken inp p2 = Some (ch CHR ''E'')
                then bindE (consume inp None p2) (\<lambda>p3.
                     bindE (if currentToken inp p3 = Some (ch CHR ''+'') \<or>
                               currentToken inp p3 = Some (ch CHR ''-'')
                            then bindE (consume inp None p3) (\<lambda>p4.
                                   Inr (s2 @ [inp ! p2] @ [inp ! p3], p4))
                            else Inr (s2 @ [inp ! p2], p3)) (\<lambda>(s4, p4).
                     bindE (parseDigits inp p4) (\<lambda>(d3, p5). Inr (s4 @ d3, p5))))
                else Inr (s2, p2)) K))
         = K (s0 @ u, p0 + length u)"
proof -
  let ?ip = "takeWhile isDecimalDigit u"
  let ?r = "dropWhile isDecimalDigit u"
  from u have run: "digitRun ?ip" and r: "lexemeFraction ?r"
    by (simp_all add: unsignedLexeme_def)
  have split: "u = ?ip @ ?r" by simp
  have inp': "inp = pre @ ?ip @ ?r @ rest" using inp by simp
  have pd: "parseDigits inp p0 = Inr (?ip, p0 + length ?ip)"
    using run lexemeFraction_stops [OF r rest] inp' p0 by (rule parseDigits_run)
  have fs: "bindE (if currentToken inp (p0 + length ?ip) = Some (ch CHR ''.'')
                then bindE (consume inp (Some (ch CHR ''.'')) (p0 + length ?ip)) (\<lambda>p.
                     bindE (parseDigits inp p) (\<lambda>(d2, p'). Inr (s0 @ ?ip @ str ''.'' @ d2, p')))
                else Inr (s0 @ ?ip, p0 + length ?ip)) (\<lambda>(s2, p2).
         bindE (if currentToken inp p2 = Some (ch CHR ''e'') \<or> currentToken inp p2 = Some (ch CHR ''E'')
                then bindE (consume inp None p2) (\<lambda>p3.
                     bindE (if currentToken inp p3 = Some (ch CHR ''+'') \<or>
                               currentToken inp p3 = Some (ch CHR ''-'')
                            then bindE (consume inp None p3) (\<lambda>p4.
                                   Inr (s2 @ [inp ! p2] @ [inp ! p3], p4))
                            else Inr (s2 @ [inp ! p2], p3)) (\<lambda>(s4, p4).
                     bindE (parseDigits inp p4) (\<lambda>(d3, p5). Inr (s4 @ d3, p5))))
                else Inr (s2, p2)) K)
         = K (s0 @ ?ip @ ?r, (p0 + length ?ip) + length ?r)"
    using inp' p0 by (intro fraction_stage [OF r rest, of _ "pre @ ?ip"]) simp_all
  have "length ?ip + length ?r = length u"
    by (metis length_append takeWhile_dropWhile_id)
  then have len: "(p0 + length ?ip) + length ?r = p0 + length u"
    by simp
  have tx: "s0 @ ?ip @ ?r = s0 @ u" by simp
  show ?thesis
    by (simp only: pd fs bindE.simps prod.case len tx)
qed

lemma parseNumber_lexeme:
  assumes s: "numberLexeme s" and rest: "closes rest"
    and inp: "inp = pre @ s @ rest" and pos: "pos = length pre"
  shows "parseNumber inp pos = Inr (parseFloat s, pos + length s)"
proof -
  from s obtain c t where ct: "s = c # t" by (cases s) (auto simp: numberLexeme_def)
  have tok: "currentToken inp pos = Some c"
    using inp pos ct by (intro currentToken_at [of _ pre _ "t @ rest"]) simp_all
  show ?thesis
  proof (cases "c = ch CHR ''-''")
    case True
    with s ct have u: "unsignedLexeme t" by (simp add: numberLexeme_def)
    have run: "digitRun (takeWhile isDecimalDigit t)"
      using u by (simp add: unsignedLexeme_def)
    have "noLeadingBlank (takeWhile isDecimalDigit t @ dropWhile isDecimalDigit t @ rest)"
      using run by (rule digitRun_noLeadingBlank)
    moreover have "takeWhile isDecimalDigit t @ dropWhile isDecimalDigit t @ rest = t @ rest"
      by (metis append_assoc takeWhile_dropWhile_id)
    ultimately have nb: "noLeadingBlank (t @ rest)" by simp
    have skip: "skipSpaces inp (pos + 1) = pos + 1"
      using nb inp pos ct by (intro skipSpaces_stay [of "t @ rest" _ "pre @ [c]"]) simp_all
    have c1: "consume inp (Some (ch CHR ''-'')) pos = Inr (pos + 1)"
      using tok skip True by (simp add: consume_def)
    have st: "bindE (parseDigits inp (pos + 1)) (\<lambda>(d1, p1).
         bindE (if currentToken inp p1 = Some (ch CHR ''.'')
                then bindE (consume inp (Some (ch CHR ''.'')) p1) (\<lambda>p.
                     bindE (parseDigits inp p) (\<lambda>(d2, p'). Inr (str ''-'' @ d1 @ str ''.'' @ d2, p')))
                else Inr (str ''-'' @ d1, p1)) (\<lambda>(s2, p2).
         bindE (if currentToken inp p2 = Some (ch CHR ''e'') \<or> currentToken inp p2 = Some (ch CHR ''E'')
                then bindE (consume inp None p2) (\<lambda>p3.
                     bindE (if currentToken inp p3 = Some (ch CHR ''+'') \<or>
                               currentToken inp p3 = Some (ch CHR ''-'')
                            then bindE (consume inp None p3) (\<lambda>p4.
                                   Inr (s2 @ [inp ! p2] @ [inp ! p3], p4))
                            else Inr (s2 @ [inp ! p2], p3)) (\<lambda>(s4, p4).
                     bindE (parseDigits inp p4) (\<lambda>(d3, p5). Inr (s4 @ d3, p5))))
                else Inr (s2, p2)) (\<lambda>(s5, p5). Inr (parseFloat s5, p5))))
         = (\<lambda>(s5, p5). Inr (parseFloat s5, p5)) (str ''-'' @ t, (pos + 1) + length t)"
      using inp pos ct by (intro unsigned_stage [OF u rest, of _ "pre @ [c]"]) simp_all
    have fin: "(Inr (parseFloat (str ''-'' @ t), (pos + 1) + length t)
          :: parse_error + JsonValue \<times> nat)
        = Inr (parseFloat s, pos + length s)"
      using ct True by (simp add: str_simps)
    show ?thesis
      unfolding parseNumber_def
      by (simp only: tok True c1 st bindE.simps prod.case if_True simp_thms fin)
  next
    case False
    with s ct have u: "unsignedLexeme s" by (simp add: numberLexeme_def)
    have st: "bindE (parseDigits inp pos) (\<lambda>(d1, p1).
         bindE (if currentToken inp p1 = Some (ch CHR ''.'')
                then bindE (consume inp (Some (ch CHR ''.'')) p1) (\<lambda>p.
                     bindE (parseDigits inp p) (\<lambda>(d2, p'). Inr ([] @ d1 @ str ''.'' @ d2, p')))
                else Inr ([] @ d1, p1)) (\<lambda>(s2, p2).
         bindE (if currentToken inp p2 = Some (ch CHR ''e'') \<or> currentToken inp p2 = Some (ch CHR ''E'')
                then bindE (consume inp None p2) (\<lambda>p3.
                     bindE (if currentToken inp p3 = Some (ch CHR ''+'') \<or>
                               currentToken inp p3 = Some (ch CHR ''-'')
                            then bindE (consume inp None p3) (\<lambda>p4.
                                   Inr (s2 @ [inp ! p2] @ [inp ! p3], p4))
                            else Inr (s2 @ [inp ! p2], p3)) (\<lambda>(s4, p4).
                     bindE (parseDigits inp p4) (\<lambda>(d3, p5). Inr (s4 @ d3, p5))))
                else Inr (s2, p2)) (\<lambda>(s5, p5). Inr (parseFloat s5, p5))))
         = (\<lambda>(s5, p5). Inr (parseFloat s5, p5)) ([] @ s, pos + length s)"
      using inp pos by (intro unsigned_stage [OF u rest, of _ pre]) simp_all
    have ne: "(Some c = Some (ch CHR ''-'')) = False" using False by simp
    show ?thesis
      unfolding parseNumber_def
      by (simp only: tok ne st bindE.simps prod.case if_False) simp
  qed
qed

lemma numberLexeme_first:
  assumes "numberLexeme s"
  shows "\<exists>c t. s = c # t \<and> (c = ch CHR ''-'' \<or> c \<in> set (str ''0123456789'')) \<and>
     c \<noteq> ch CHR ''{'' \<and> c \<noteq> ch CHR ''['' \<and> c \<noteq> QUOTE \<and> c \<noteq> ch CHR '']'' \<and> \<not> isBlank c"
proof -
  from assms obtain c t where ct: "s = c # t" by (cases s) (auto simp: numberLexeme_def)
  show ?thesis
  proof (cases "c = ch CHR ''-''")
    case True
    with ct show ?thesis by (simp add: isBlank_def char_defs)
  next
    case False
    with assms ct have "digitRun (takeWhile isDecimalDigit s)"
      by (simp add: numberLexeme_def unsignedLexeme_def)
    then have "takeWhile isDecimalDigit s \<noteq> []" using digitRun_digits by blast
    with ct have c: "isDecimalDigit c" by (auto split: if_splits)
    then have "48 \<le> unat c \<and> unat c \<le> 57"
      by (simp add: isDecimalDigit_def word_le_nat_alt)
    then have "unat c = 48 \<or> unat c = 49 \<or> unat c = 50 \<or> unat c = 51 \<or> unat c = 52 \<or>
        unat c = 53 \<or> unat c = 54 \<or> unat c = 55 \<or> unat c = 56 \<or> unat c = 57"
      by arith
    then have "c \<in> set (str ''0123456789'')"
      by (auto simp: str_simps ch_def word_unat_eq_iff)
    with c ct digit_not_special [of c] show ?thesis by simp
  qed
qed

section \<open>The text the encoder writes\<close>

lemma plain_not_numeric: \<open>\<not> stringIsNumeric (str ''[object Object]'')\<close>
  by code_simp

lemma toString_primitive: "\<not> isObject r \<Longrightarrow> toString h r = Inr (primitiveToString r)"
  by (cases r) simp_all

lemma roundTrips_not_function: "roundTrips v \<Longrightarrow> (case v of VFun src r \<Rightarrow> False | _ \<Rightarrow> True)"
  by (cases v) simp_all

lemma methodResult_toString_inherited:
  "str ''toString'' \<notin> fst ` set es \<Longrightarrow> methodResult (str ''toString'') ts es = Some (VStr ts)"
  by (simp add: methodResult_def map_of_eq_None_iff [THEN iffD2])

lemma methodResult_valueOf_not_called:
  assumes "\<forall>(k, v) \<in> set es. roundTrips v"
  shows "firstPrimitive (methodResult (str ''valueOf'') ts es # rs) = firstPrimitive rs"
proof (cases "map_of es (str ''valueOf'')")
  case None
  have "str ''valueOf'' \<noteq> str ''toString''" by (simp add: str_simps ch_def)
  with None show ?thesis by (simp add: methodResult_def)
next
  case (Some f)
  then have "(str ''valueOf'', f) \<in> set es" by (rule map_of_SomeD)
  with assms have "roundTrips f" by auto
  then have "methodResult (str ''valueOf'') ts es = None"
    using Some by (cases f) (simp_all add: methodResult_def)
  then show ?thesis by simp
qed

lemma plain_object_not_numeric:
  assumes "list_all (\<lambda>(k, v). k \<noteq> str ''toString'' \<and> roundTrips v) es"
  shows "numericCoercible (plainObject es) = Inr False"
    and "methodResult (str ''toString'') (str ''[object Object]'') es
           = Some (VStr (str ''[object Object]''))"
proof -
  have keys: "str ''toString'' \<notin> fst ` set es"
    using assms by (auto simp: list_all_iff)
  have vals: "\<forall>(k, v) \<in> set es. roundTrips v"
    using assms by (auto simp: list_all_iff)
  show m: "methodResult (str ''toString'') (str ''[object Object]'') es
           = Some (VStr (str ''[object Object]''))"
    using keys by (rule methodResult_toString_inherited)
  have "toPrimitive PreferNumber (str ''[object Object]'') es = Inr (VStr (str ''[object Object]''))"
    unfolding toPrimitive_def
    using methodResult_valueOf_not_called [OF vals] m by simp
  then show "numericCoercible (plainObject es) = Inr False"
    using plain_not_numeric by (simp add: plainObject_def)
qed

lemma encodeArrayLoop_text:
  assumes "list_all encodesTo vs" and "vs \<noteq> []" and "len = i + length vs"
  shows "encodeArrayLoop len vs arr i = Inr (VStr (arr @ joinComma (map jsonText vs) @ str '']''))"
  using assms
proof (induction vs arbitrary: arr i)
  case Nil
  then show ?case by simp
next
  case (Cons v vs)
  from Cons.prems(1) have "encodesTo v" and rest: "list_all encodesTo vs" by simp_all
  then obtain r where r: "encodeValue v = Inr r" "\<not> isObject r"
      "primitiveToString r = jsonText v"
    by (auto simp: encodesTo_def)
  have ty: "typeof r \<noteq> TFunction" using r(2) by (cases r) simp_all
  have ts: "toString PreferNumber r = Inr (jsonText v)"
    using r(2,3) by (simp add: toString_primitive)
  show ?case
  proof (cases vs)
    case Nil
    with r ty ts Cons.prems(3) show ?thesis by simp
  next
    case (Cons w ws)
    have "encodeArrayLoop len (v # vs) arr i
        = encodeArrayLoop len vs (arr @ jsonText v @ str '','') (i + 1)"
      using r ty ts Cons.prems(3) Cons by simp
    also have "\<dots> = Inr (VStr ((arr @ jsonText v @ str '','') @ joinComma (map jsonText vs) @ str '']''))"
      using rest Cons Cons.prems(3) by (intro Cons.IH) simp_all
    finally show ?thesis using Cons by (simp add: str_simps)
  qed
qed

lemma encodeObjectLoop_text:
  assumes "list_all (\<lambda>(k, v). encodesTo v) es" and "es \<noteq> []" and "len = i + length es"
  shows "encodeObjectLoop len es obj i =
     Inr (VStr (obj @ joinComma (map (\<lambda>(k, v). QUOTE # k @ QUOTE # ch CHR '':'' # jsonText v) es)
                 @ str ''}''))"
  using assms
proof (induction es arbitrary: obj i)
  case Nil
  then show ?case by simp
next
  case (Cons e es)
  obtain k v where e: "e = (k, v)" by (cases e)
  from Cons.prems(1) e have "encodesTo v" and rest: "list_all (\<lambda>(k, v). encodesTo v) es"
    by simp_all
  then obtain r where r: "encodeValue v = Inr r" "\<not> isObject r"
      "primitiveToString r = jsonText v"
    by (auto simp: encodesTo_def)
  have ty: "typeof r \<noteq> TFunction" using r(2) by (cases r) simp_all
  have ts: "toString PreferString r = Inr (jsonText v)"
    using r(2,3) by (simp add: toString_primitive)
  show ?case
  proof (cases es)
    case Nil
    with r ty ts e Cons.prems(3) show ?thesis by simp
  next
    case (Cons e' es')
    have "encodeObjectLoop len (e # es) obj i
        = encodeObjectLoop len es
            (obj @ QUOTE # k @ QUOTE # ch CHR '':'' # jsonText v @ str '','') (i + 1)"
      using r ty ts e Cons.prems(3) Cons by simp
    also have "\<dots> = Inr (VStr ((obj @ QUOTE # k @ QUOTE # ch CHR '':'' # jsonText v @ str '','')
        @ joinComma (map (\<lambda>(k, v). QUOTE # k @ QUOTE # ch CHR '':'' # jsonText v) es) @ str ''}''))"
      using rest Cons Cons.prems(3) by (intro Cons.IH) simp_all
    finally show ?thesis using e Cons by (simp add: str_simps)
  qed
qed

lemma encodeValue_text:
  "roundTrips v \<Longrightarrow> inheritsToString v \<Longrightarrow>
   encodesTo v \<and> (isContainer v \<longrightarrow> encodeValue v = Inr (VStr (jsonText v)))"
proof (induction v)
  case (VArr vs)
  then have all: "list_all encodesTo vs" and ne: "vs \<noteq> []"
    by (auto simp: list_all_iff)
  have "encodeValue (VArr vs) = Inr (VStr (jsonText (VArr vs)))"
    using encodeArrayLoop_text [OF all ne, of "length vs" 0 "str ''[''"]
    by (simp add: str_simps)
  then show ?case by (simp add: encodesTo_def)
next
  case (VObj ts es)
  from VObj.prems have ne: "es \<noteq> []" and ts: "ts = str ''[object Object]''"
    and keys: "list_all (\<lambda>(k, v). k \<noteq> str ''toString'' \<and> roundTrips v) es"
    by (auto simp: list_all_iff)
  have all: "list_all (\<lambda>(k, v). encodesTo v) es"
    unfolding list_all_iff
  proof (intro ballI)
    fix e assume e: "e \<in> set es"
    obtain k w where kw: "e = (k, w)" by (cases e)
    from VObj.prems e kw have "roundTrips w" "inheritsToString w"
      by (auto simp: list_all_iff)
    then have "encodesTo w" using VObj.IH [of e w] e kw by simp
    with kw show "case e of (k, v) \<Rightarrow> encodesTo v" by simp
  qed
  have nc: "numericCoercible (VObj ts es) = Inr False"
    using plain_object_not_numeric(1) [OF keys] ts by (simp add: plainObject_def)
  have mr: "methodResult (str ''toString'') ts es = Some (VStr (str ''[object Object]''))"
    using plain_object_not_numeric(2) [OF keys] ts by simp
  have "encodeObject ts es = Inr (VStr (jsonText (VObj ts es)))"
    using encodeObjectLoop_text [OF all ne, of "length es" 0 "str ''{''"] mr
    by (simp add: str_simps)
  then have "encodeValue (VObj ts es) = Inr (VStr (jsonText (VObj ts es)))"
    using nc by simp
  then show ?case by (simp add: encodesTo_def)
qed (auto simp: encodesTo_def)

section \<open>Reading a text back\<close>

declare parseValue.simps [simp del] parseObject.simps [simp del] parseObjectLoop.simps [simp del]
  parsePair.simps [simp del] parseArray.simps [simp del] parseArrayLoop.simps [simp del]

lemma parsesToD:
  "parsesTo v \<Longrightarrow> closes rest \<Longrightarrow> inp = pre @ jsonText v @ rest \<Longrightarrow> pos = length pre \<Longrightarrow>
   \<exists>n. parseValue n inp pos = Some (Inr (decoded v, pos + length (jsonText v)))"
  by (simp add: parsesTo_def)

lemma startsValue_append: "startsValue s \<Longrightarrow> noLeadingBlank (s @ t)"
  by (cases s) (simp_all add: startsValue_def noLeadingBlank_def)

lemma startsValue_token:
  "startsValue s \<Longrightarrow> inp = pre @ s @ t \<Longrightarrow> pos = length pre \<Longrightarrow>
   currentToken inp pos \<noteq> Some (ch CHR '']'')"
  by (cases s) (simp_all add: startsValue_def currentToken_def)

lemma parseString_plain_ge:
  assumes "length body < N" and "plainText body" "noLeadingBlank body" "noLeadingBlank rest"
    and "inp = pre @ QUOTE # body @ QUOTE # rest" and "pos = length pre"
  shows "parseString N inp pos = Some (Inr (body, pos + length body + 2))"
proof -
  from assms(1) obtain k where N: "N = length body + Suc k"
    by (metis add_Suc_right less_iff_Suc_add)
  show ?thesis
    unfolding N
    using parseString_plain [of "[]" body rest inp pre pos k] assms by simp
qed

lemma consumeAll_literal:
  "list_all (\<lambda>c. \<not> isBlank c) lit \<Longrightarrow> noLeadingBlank rest \<Longrightarrow> inp = pre @ lit @ rest \<Longrightarrow>
   pos = length pre \<Longrightarrow> consumeAll inp lit pos = Inr (pos + length lit)"
proof (induction lit arbitrary: pre pos)
  case Nil
  show ?case by simp
next
  case (Cons c lit)
  have nb: "noLeadingBlank (lit @ rest)"
    using Cons.prems(1,2) by (cases lit) (simp_all add: noLeadingBlank_def)
  have skip: "skipSpaces inp (pos + 1) = pos + 1"
    using nb Cons.prems by (intro skipSpaces_stay [of _ _ "pre @ [c]"]) simp_all
  have c1: "consume inp (Some c) pos = Inr (pos + 1)"
    using consume_expected [of inp pre c "lit @ rest" pos] Cons.prems skip by simp
  have "consumeAll inp lit (pos + 1) = Inr ((pos + 1) + length lit)"
    using Cons.prems by (intro Cons.IH [of "pre @ [c]"]) simp_all
  with c1 show ?case by simp
qed

lemma parseArrayLoop_end:
  assumes "noLeadingBlank rest" and "inp = pre @ ch CHR '']'' # rest" and "pos = length pre"
  shows "parseArrayLoop (Suc k) inp pos acc = Some (Inr (JArray acc, pos + 1))"
proof -
  have tok: "currentToken inp pos = Some (ch CHR '']'')"
    using assms(2,3) by (rule currentToken_at)
  have skip: "skipSpaces inp (pos + 1) = pos + 1"
    using assms by (intro skipSpaces_stay [of rest _ "pre @ [ch CHR '']'']"]) simp_all
  show ?thesis
    using tok skip consume_expected [OF assms(2,3)] by (simp add: parseArrayLoop.simps)
qed

lemma joinComma_Cons:
  "joinComma (s # ts) = (if ts = [] then s else s @ ch CHR '','' # joinComma ts)"
  by (cases ts) simp_all

lemma parseArrayLoop_text:
  assumes "list_all parsesTo vs" and "list_all (\<lambda>v. startsValue (jsonText v)) vs"
    and "noLeadingBlank rest"
    and "inp = pre @ joinComma (map jsonText vs) @ ch CHR '']'' # rest" and "pos = length pre"
  shows "\<exists>n. parseArrayLoop n inp pos acc
     = Some (Inr (JArray (acc @ map decoded vs), pos + length (joinComma (map jsonText vs)) + 1))"
  using assms
proof (induction vs arbitrary: pre pos acc)
  case Nil
  then have "parseArrayLoop (Suc 0) inp pos acc = Some (Inr (JArray acc, pos + 1))"
    by (intro parseArrayLoop_end [of rest _ pre]) simp_all
  then show ?case by auto
next
  case (Cons v vs)
  let ?tv = "jsonText v"
  let ?tail = "joinComma (map jsonText vs)"
  let ?p = "pos + length ?tv"
  from Cons.prems have v: "parsesTo v" "startsValue ?tv"
    and vs: "list_all parsesTo vs" "list_all (\<lambda>v. startsValue (jsonText v)) vs" by simp_all
  have inp0: "inp = pre @ ?tv @ ((if vs = [] then [] else ch CHR '','' # ?tail) @ ch CHR '']'' # rest)"
    using Cons.prems(4) by (simp add: joinComma_Cons)
  have tok0: "currentToken inp pos \<noteq> Some (ch CHR '']'')"
    using v(2) inp0 Cons.prems(5) by (rule startsValue_token)
  show ?case
  proof (cases vs)
    case Nil
    have inp: "inp = pre @ ?tv @ ch CHR '']'' # rest" using Cons.prems(4) Nil by simp
    obtain n1 where n1: "parseValue n1 inp pos = Some (Inr (decoded v, ?p))"
      using parsesToD [OF v(1) _ inp Cons.prems(5)] by (auto simp: closes_def)
    have tok: "currentToken inp ?p = Some (ch CHR '']'')"
      using inp Cons.prems(5) by (intro currentToken_at [of _ "pre @ ?tv"]) simp_all
    have fin: "parseArrayLoop (Suc n1) inp ?p (acc @ [decoded v])
        = Some (Inr (JArray (acc @ [decoded v]), ?p + 1))"
      using Cons.prems(3) inp Cons.prems(5) by (intro parseArrayLoop_end [of rest _ "pre @ ?tv"]) simp_all
    have v1: "parseValue (Suc n1) inp pos = Some (Inr (decoded v, ?p))"
      using n1 by (rule parseValue_mono) simp
    have "parseArrayLoop (Suc (Suc n1)) inp pos acc
        = Some (Inr (JArray (acc @ [decoded v]), ?p + 1))"
      using tok0 v1 tok fin by (simp add: parseArrayLoop.simps(2) [of "Suc n1"] ch_def)
    then show ?thesis using Nil by auto
  next
    case (Cons w ws)
    have inp: "inp = pre @ ?tv @ ch CHR '','' # ?tail @ ch CHR '']'' # rest"
      using Cons.prems(4) Cons by simp
    obtain n1 where n1: "parseValue n1 inp pos = Some (Inr (decoded v, ?p))"
      using parsesToD [OF v(1) _ inp Cons.prems(5)] by (auto simp: closes_def)
    have tok: "currentToken inp ?p = Some (ch CHR '','')"
      using inp Cons.prems(5) by (intro currentToken_at [of _ "pre @ ?tv"]) simp_all
    have "startsValue ?tail" using vs(2) Cons by (simp add: startsValue_def joinComma_Cons split: list.splits)
    then have "noLeadingBlank (?tail @ ch CHR '']'' # rest)" by (rule startsValue_append)
    then have skip: "skipSpaces inp (?p + 1) = ?p + 1"
      using inp Cons.prems(5) by (intro skipSpaces_stay [of _ _ "pre @ ?tv @ [ch CHR '','']"]) simp_all
    have c1: "consume inp (Some (ch CHR '','')) ?p = Inr (?p + 1)"
      using consume_expected [of inp "pre @ ?tv" "ch CHR '',''" _ ?p] inp Cons.prems(5) skip by simp
    obtain n2 where n2: "parseArrayLoop n2 inp (?p + 1) (acc @ [decoded v])
        = Some (Inr (JArray ((acc @ [decoded v]) @ map decoded vs), (?p + 1) + length ?tail + 1))"
      using Cons.IH [OF vs Cons.prems(3), of "pre @ ?tv @ [ch CHR '','']" "?p + 1" "acc @ [decoded v]"]
        inp Cons.prems(5) by auto
    let ?n = "max n1 n2"
    have v1: "parseValue ?n inp pos = Some (Inr (decoded v, ?p))"
      using n1 by (rule parseValue_mono) simp
    have l1: "parseArrayLoop ?n inp (?p + 1) (acc @ [decoded v])
        = Some (Inr (JArray ((acc @ [decoded v]) @ map decoded vs), (?p + 1) + length ?tail + 1))"
      using n2 by (rule parseArrayLoop_mono) simp
    have "parseArrayLoop (Suc ?n) inp pos acc
        = Some (Inr (JArray ((acc @ [decoded v]) @ map decoded vs), (?p + 1) + length ?tail + 1))"
      using tok0 v1 tok c1 l1 by (simp add: parseArrayLoop.simps(2) [of ?n])
    then show ?thesis using Cons by (auto simp: add.assoc)
  qed
qed

lemma parseObjectLoop_end:
  assumes "noLeadingBlank rest" and "inp = pre @ ch CHR ''}'' # rest" and "pos = length pre"
  shows "parseObjectLoop (Suc k) inp pos obj = Some (Inr (obj, pos + 1))"
proof -
  have tok: "currentToken inp pos = Some (ch CHR ''}'')"
    using assms(2,3) by (rule currentToken_at)
  have skip: "skipSpaces inp (pos + 1) = pos + 1"
    using assms by (intro skipSpaces_stay [of rest _ "pre @ [ch CHR ''}'']"]) simp_all
  show ?thesis
    using tok skip consume_expected [OF assms(2,3)] by (simp add: parseObjectLoop.simps)
qed

lemma parsePair_text:
  assumes k: "plainText k" "noLeadingBlank k" and v: "parsesTo v" "startsValue (jsonText v)"
    and rest: "closes rest"
    and inp: "inp = pre @ QUOTE # k @ QUOTE # ch CHR '':'' # jsonText v @ rest"
    and pos: "pos = length pre"
  shows "\<exists>n. parsePair n inp pos
     = Some (Inr ((k, decoded v), pos + length k + 3 + length (jsonText v)))"
proof -
  let ?tv = "jsonText v"
  let ?q = "pos + length k + 2"
  obtain n1 where n1: "parseValue n1 inp (?q + 1) = Some (Inr (decoded v, (?q + 1) + length ?tv))"
    using parsesToD [OF v(1) rest, of inp "pre @ QUOTE # k @ QUOTE # [ch CHR '':'']" "?q + 1"]
      inp pos by auto
  let ?n = "max n1 (Suc (length k))"
  have "\<not> isBlank (ch CHR '':'')" by (simp add: isBlank_def ch_def)
  then have "noLeadingBlank (ch CHR '':'' # ?tv @ rest)" by (simp add: noLeadingBlank_def)
  then have key: "parseString ?n inp pos = Some (Inr (k, ?q))"
    using k inp pos by (intro parseString_plain_ge) simp_all
  have skip: "skipSpaces inp (?q + 1) = ?q + 1"
    using startsValue_append [OF v(2), of rest] inp pos
    by (intro skipSpaces_stay [of _ _ "pre @ QUOTE # k @ QUOTE # [ch CHR '':'']"]) simp_all
  have colon: "consume inp (Some (ch CHR '':'')) ?q = Inr (?q + 1)"
    using consume_expected [of inp "pre @ QUOTE # k @ [QUOTE]" "ch CHR '':''" "?tv @ rest" ?q]
      inp pos skip by simp
  have val: "parseValue ?n inp (?q + 1) = Some (Inr (decoded v, (?q + 1) + length ?tv))"
    using n1 by (rule parseValue_mono) simp
  have pe: "(?q + 1) + length ?tv = pos + length k + 3 + length ?tv" by simp
  have "parsePair (Suc ?n) inp pos = Some (Inr ((k, decoded v), (?q + 1) + length ?tv))"
    using key colon val by (simp add: parsePair.simps(2) [of ?n])
  then show ?thesis unfolding pe by blast
qed

lemma parseObjectLoop_text:
  assumes "list_all (\<lambda>(k, v). plainText k \<and> noLeadingBlank k \<and> parsesTo v \<and>
             startsValue (jsonText v)) es"
    and "noLeadingBlank rest"
    and "inp = pre @ joinComma (map (\<lambda>(k, v). QUOTE # k @ QUOTE # ch CHR '':'' # jsonText v) es)
               @ ch CHR ''}'' # rest"
    and "pos = length pre"
  shows "\<exists>n. parseObjectLoop n inp pos obj
     = Some (Inr (setAll obj (map (\<lambda>(k, v). (k, decoded v)) es),
          pos + length (joinComma (map (\<lambda>(k, v). QUOTE # k @ QUOTE # ch CHR '':'' # jsonText v) es))
          + 1))"
  using assms
proof (induction es arbitrary: pre pos obj)
  case Nil
  then have "parseObjectLoop (Suc 0) inp pos obj = Some (Inr (obj, pos + 1))"
    by (intro parseObjectLoop_end [of rest _ pre]) simp_all
  then show ?case by auto
next
  case (Cons e es)
  obtain k v where e: "e = (k, v)" by (cases e)
  let ?pt = "\<lambda>(k, v). QUOTE # k @ QUOTE # ch CHR '':'' # jsonText v"
  let ?tv = "jsonText v"
  let ?te = "QUOTE # k @ QUOTE # ch CHR '':'' # ?tv"
  let ?tail = "joinComma (map ?pt es)"
  let ?p = "pos + length k + 3 + length ?tv"
  from Cons.prems(1) e have k: "plainText k" "noLeadingBlank k"
    and v: "parsesTo v" "startsValue ?tv"
    and es: "list_all (\<lambda>(k, v). plainText k \<and> noLeadingBlank k \<and> parsesTo v \<and>
             startsValue (jsonText v)) es" by simp_all
  have inp0: "inp = pre @ QUOTE # (k @ QUOTE # ch CHR '':'' # ?tv @
      (if es = [] then [] else ch CHR '','' # ?tail) @ ch CHR ''}'' # rest)"
    using Cons.prems(3) e by (simp add: joinComma_Cons)
  have tok0: "currentToken inp pos \<noteq> Some (ch CHR ''}'')"
    using currentToken_at [OF inp0 Cons.prems(4)] by (simp add: char_defs)
  show ?case
  proof (cases es)
    case Nil
    have inp: "inp = pre @ QUOTE # k @ QUOTE # ch CHR '':'' # ?tv @ ch CHR ''}'' # rest"
      using inp0 Nil by simp
    obtain n1 where n1: "parsePair n1 inp pos = Some (Inr ((k, decoded v), ?p))"
      using parsePair_text [OF k v _ inp Cons.prems(4)] by (auto simp: closes_def)
    have tok: "currentToken inp ?p = Some (ch CHR ''}'')"
      using inp Cons.prems(4)
      by (intro currentToken_at [of _ "pre @ QUOTE # k @ QUOTE # ch CHR '':'' # ?tv"]) simp_all
    have fin: "parseObjectLoop (Suc n1) inp ?p (setProperty obj k (decoded v))
        = Some (Inr (setProperty obj k (decoded v), ?p + 1))"
      using Cons.prems(2) inp Cons.prems(4)
      by (intro parseObjectLoop_end [of rest _ "pre @ QUOTE # k @ QUOTE # ch CHR '':'' # ?tv"])
         simp_all
    have p1: "parsePair (Suc n1) inp pos = Some (Inr ((k, decoded v), ?p))"
      using n1 by (rule parse_mono_aux [THEN conjunct2, THEN conjunct2, THEN conjunct2,
            THEN conjunct1, rule_format, rotated]) simp
    have pe: "pos + length (joinComma (map ?pt (e # es))) + 1 = ?p + 1"
      using Nil e by simp
    have "parseObjectLoop (Suc (Suc n1)) inp pos obj
        = Some (Inr (setProperty obj k (decoded v), ?p + 1))"
      using tok0 p1 tok fin by (simp add: parseObjectLoop.simps(2) [of "Suc n1"] ch_def)
    then have "parseObjectLoop (Suc (Suc n1)) inp pos obj
        = Some (Inr (setAll obj (map (\<lambda>(k, v). (k, decoded v)) (e # es)),
             pos + length (joinComma (map ?pt (e # es))) + 1))"
      unfolding pe using Nil e by simp
    then show ?thesis by blast
  next
    case (Cons e' es')
    have inp: "inp = pre @ QUOTE # k @ QUOTE # ch CHR '':'' # ?tv @ ch CHR '','' # ?tail
        @ ch CHR ''}'' # rest"
      using inp0 Cons by simp
    obtain n1 where n1: "parsePair n1 inp pos = Some (Inr ((k, decoded v), ?p))"
      using parsePair_text [OF k v _ inp Cons.prems(4)] by (auto simp: closes_def)
    have tok: "currentToken inp ?p = Some (ch CHR '','')"
      using inp Cons.prems(4)
      by (intro currentToken_at [of _ "pre @ QUOTE # k @ QUOTE # ch CHR '':'' # ?tv"]) simp_all
    obtain k' v' where e': "e' = (k', v')" by (cases e')
    have "\<not> isBlank QUOTE" by (rule not_blank_QUOTE)
    then have "noLeadingBlank (?tail @ ch CHR ''}'' # rest)"
      using Cons e' by (simp add: joinComma_Cons noLeadingBlank_def)
    then have skip: "skipSpaces inp (?p + 1) = ?p + 1"
      using inp Cons.prems(4)
      by (intro skipSpaces_stay [of _ _ "pre @ QUOTE # k @ QUOTE # ch CHR '':'' # ?tv @ [ch CHR '','']"])
         simp_all
    have c1: "consume inp (Some (ch CHR '','')) ?p = Inr (?p + 1)"
      using consume_expected [of inp "pre @ QUOTE # k @ QUOTE # ch CHR '':'' # ?tv" "ch CHR '',''" _ ?p]
        inp Cons.prems(4) skip by simp
    obtain n2 where n2: "parseObjectLoop n2 inp (?p + 1) (setProperty obj k (decoded v))
        = Some (Inr (setAll (setProperty obj k (decoded v)) (map (\<lambda>(k, v). (k, decoded v)) es),
            (?p + 1) + length ?tail + 1))"
      using Cons.IH [OF es Cons.prems(2),
          of "pre @ QUOTE # k @ QUOTE # ch CHR '':'' # ?tv @ [ch CHR '','']" "?p + 1"
             "setProperty obj k (decoded v)"]
        inp Cons.prems(4) by auto
    let ?n = "max n1 n2"
    have p1: "parsePair ?n inp pos = Some (Inr ((k, decoded v), ?p))"
      using n1 by (rule parse_mono_aux [THEN conjunct2, THEN conjunct2, THEN conjunct2,
            THEN conjunct1, rule_format, rotated]) simp
    have l1: "parseObjectLoop ?n inp (?p + 1) (setProperty obj k (decoded v))
        = Some (Inr (setAll (setProperty obj k (decoded v)) (map (\<lambda>(k, v). (k, decoded v)) es),
            (?p + 1) + length ?tail + 1))"
      using n2 by (rule parseObjectLoop_mono) simp
    have pe: "pos + length (joinComma (map ?pt (e # es))) + 1 = (?p + 1) + length ?tail + 1"
      using Cons e by simp
    have "parseObjectLoop (Suc ?n) inp pos obj
        = Some (Inr (setAll (setProperty obj k (decoded v)) (map (\<lambda>(k, v). (k, decoded v)) es),
            (?p + 1) + length ?tail + 1))"
      using tok0 p1 tok c1 l1 by (simp add: parseObjectLoop.simps(2) [of ?n])
    then have "parseObjectLoop (Suc ?n) inp pos obj
        = Some (Inr (setAll obj (map (\<lambda>(k, v). (k, decoded v)) (e # es)),
             pos + length (joinComma (map ?pt (e # es))) + 1))"
      unfolding pe using e by simp
    then show ?thesis by blast
  qed
qed

lemma numberToString_first:
  "\<exists>c t. numberToString n = c # t \<and> (c = ch CHR ''-'' \<or> c \<in> set (str ''0123456789'')) \<and>
     c \<noteq> ch CHR ''{'' \<and> c \<noteq> ch CHR ''['' \<and> c \<noteq> QUOTE \<and> c \<noteq> ch CHR '']'' \<and> \<not> isBlank c"
proof (cases "n < 0")
  case True
  then show ?thesis by (simp add: numberToString_def isBlank_def char_defs)
next
  case False
  obtain c t where ct: "digitsOf (nat n) = c # t"
    using digitsOf_nonempty [of "nat n"] by (cases "digitsOf (nat n)") auto
  have "isDecimalDigit c" using digitsOf_digits [of "nat n"] ct by simp
  moreover have "c \<in> set (str ''0123456789'')"
    using digitsOf_hd_dispatch [of "nat n"] ct by simp
  ultimately show ?thesis
    using False ct digit_not_special [of c] by (simp add: numberToString_def)
qed

lemma roundTrips_startsValue: "roundTrips v \<Longrightarrow> startsValue (jsonText v)"
proof (cases v)
  case (VNum n)
  then show ?thesis using numberToString_first [of n] by (auto simp: startsValue_def)
next
  case (VDec m e)
  assume "roundTrips v"
  with VDec numberLexeme_first [of "decimalToString m e"] show ?thesis
    by (auto simp: startsValue_def)
next
  case (VStr s)
  assume rt: "roundTrips v"
  show ?thesis
  proof (cases "stringIsNumeric s")
    case True
    with rt VStr numberLexeme_first [of s] show ?thesis by (auto simp: startsValue_def)
  next
    case False
    with VStr show ?thesis by (simp add: startsValue_def isBlank_def char_defs)
  qed
qed (simp_all add: startsValue_def isBlank_def str_simps char_defs)

lemma parseValue_null:
  assumes "closes rest" and "inp = pre @ str ''null'' @ rest" and "pos = length pre"
  shows "parseValue (Suc k) inp pos = Some (Inr (JNull, pos + length (str ''null'')))"
proof -
  have tok: "currentToken inp pos = Some (ch CHR ''n'')"
    using assms(2,3) by (intro currentToken_at [of _ pre _ "str ''ull'' @ rest"]) (simp_all add: str_simps)
  have "consumeAll inp (str ''null'') pos = Inr (pos + length (str ''null''))"
    using closes_noLeadingBlank [OF assms(1)] assms(2,3)
    by (intro consumeAll_literal [of _ rest _ pre]) (simp_all add: str_simps isBlank_def ch_def)
  then show ?thesis
    using tok by (simp add: parseValue.simps parseNull_def str_simps char_defs)
qed

lemma parseValue_number:
  assumes "- 9007199254740992 \<le> n" "n \<le> 9007199254740992" and "closes rest"
    and "inp = pre @ numberToString n @ rest" and "pos = length pre"
  shows "parseValue (Suc k) inp pos = Some (Inr (JNumber n, pos + length (numberToString n)))"
proof -
  obtain c t where ct: "numberToString n = c # t"
    and c: "c = ch CHR ''-'' \<or> c \<in> set (str ''0123456789'')"
      "c \<noteq> ch CHR ''{''" "c \<noteq> ch CHR ''[''" "c \<noteq> QUOTE"
    using numberToString_first [of n] by blast
  have tok: "currentToken inp pos = Some c"
    using assms(4,5) ct by (intro currentToken_at [of _ pre _ "t @ rest"]) simp_all
  have "parseValue (Suc k) inp pos = Some (parseNumber inp pos)"
    using tok c by (simp add: parseValue.simps)
  then show ?thesis using parseNumber_int [OF assms] by simp
qed

lemma parseValue_lexeme:
  assumes "numberLexeme s" and "closes rest"
    and "inp = pre @ s @ rest" and "pos = length pre"
  shows "parseValue (Suc k) inp pos = Some (Inr (parseFloat s, pos + length s))"
proof -
  obtain c t where ct: "s = c # t"
    and c: "c = ch CHR ''-'' \<or> c \<in> set (str ''0123456789'')"
      "c \<noteq> ch CHR ''{''" "c \<noteq> ch CHR ''[''" "c \<noteq> QUOTE"
    using numberLexeme_first [OF assms(1)] by blast
  have tok: "currentToken inp pos = Some c"
    using assms(3,4) ct by (intro currentToken_at [of _ pre _ "t @ rest"]) simp_all
  have "parseValue (Suc k) inp pos = Some (parseNumber inp pos)"
    using tok c by (simp add: parseValue.simps)
  then show ?thesis using parseNumber_lexeme [OF assms] by simp
qed

lemma parseValue_string:
  assumes "plainText s" "noLeadingBlank s" and "closes rest"
    and "inp = pre @ QUOTE # s @ QUOTE # rest" and "pos = length pre"
  shows "parseValue (Suc (Suc (length s))) inp pos = Some (Inr (JString s, pos + length s + 2))"
proof -
  have tok: "currentToken inp pos = Some QUOTE"
    using assms(4,5) by (rule currentToken_at)
  have "parseString (Suc (length s)) inp pos = Some (Inr (s, pos + length s + 2))"
    using assms(1,2) closes_noLeadingBlank [OF assms(3)] assms(4,5)
    by (intro parseString_plain_ge) simp_all
  then show ?thesis
    using tok by (simp add: parseValue.simps char_defs)
qed

lemma updateEntry_new: "k \<notin> fst ` set obj \<Longrightarrow> updateEntry k v obj = obj @ [(k, v)]"
  by (induction obj) auto

lemma not_proto_update:
  "k \<noteq> str ''__proto__'' \<Longrightarrow> k \<notin> fst ` set obj \<Longrightarrow>
   setProperty (JObjectWith pr obj) k v = JObjectWith pr (obj @ [(k, v)])"
  by (simp add: updateEntry_new)

lemma setAll_distinct:
  "distinct (map fst kvs) \<Longrightarrow> \<forall>k \<in> fst ` set kvs. k \<noteq> str ''__proto__'' \<Longrightarrow>
   fst ` set obj \<inter> fst ` set kvs = {} \<Longrightarrow>
   setAll (JObjectWith pr obj) kvs = JObjectWith pr (obj @ kvs)"
proof (induction kvs arbitrary: obj)
  case Nil
  show ?case by simp
next
  case (Cons kv kvs)
  obtain k v where kv: "kv = (k, v)" by (cases kv)
  have "setProperty (JObjectWith pr obj) k v = JObjectWith pr (obj @ [(k, v)])"
    using Cons.prems kv by (intro not_proto_update) auto
  moreover have "setAll (JObjectWith pr (obj @ [(k, v)])) kvs = JObjectWith pr ((obj @ [(k, v)]) @ kvs)"
    using Cons.prems kv by (intro Cons.IH) auto
  ultimately show ?case using kv by simp
qed

lemma roundTrips_parsesTo:
  "roundTrips v \<Longrightarrow> distinctKeys v \<Longrightarrow> parsesTo v"
proof (induction v)
  case VNull
  show ?case
    unfolding parsesTo_def
    by (intro allI impI exI [of _ "Suc 0"]) (simp add: parseValue_null)
next
  case (VNum n)
  then show ?case
    unfolding parsesTo_def
    by (intro allI impI exI [of _ "Suc 0"]) (simp add: parseValue_number)
next
  case (VDec m e)
  then have lex: "numberLexeme (decimalToString m e)" by simp
  show ?case
    unfolding parsesTo_def
    by (intro allI impI exI [of _ "Suc 0"]) (simp add: parseValue_lexeme [OF lex])
next
  case (VStr s)
  show ?case
  proof (cases "stringIsNumeric s")
    case True
    with VStr.prems have lex: "numberLexeme s" by simp
    have "parseValue (Suc 0) (pre @ s @ rest) (length pre)
        = Some (Inr (parseFloat s, length pre + length s))" if "closes rest" for pre rest
      using parseValue_lexeme [OF lex that, of "pre @ s @ rest" pre "length pre" 0] by simp
    with True show ?thesis unfolding parsesTo_def by auto
  next
    case False
    with VStr.prems have s: "plainText s" "noLeadingBlank s" by simp_all
    have "parseValue (Suc (Suc (length s))) (pre @ (QUOTE # s @ [QUOTE]) @ rest) (length pre)
        = Some (Inr (JString s, length pre + length (QUOTE # s @ [QUOTE])))"
      if "closes rest" for pre rest
      using parseValue_string [OF s that, of "pre @ (QUOTE # s @ [QUOTE]) @ rest" pre "length pre"]
      by simp
    with False show ?thesis unfolding parsesTo_def by auto
  qed
next
  case (VArr vs)
  have all: "list_all parsesTo vs"
    using VArr by (auto simp: list_all_iff)
  have st: "list_all (\<lambda>v. startsValue (jsonText v)) vs"
    using VArr.prems by (auto simp: list_all_iff intro: roundTrips_startsValue)
  show ?case
    unfolding parsesTo_def
  proof (intro allI impI)
    fix pre rest
    assume rest: "closes rest"
    let ?body = "joinComma (map jsonText vs)"
    let ?inp = "pre @ jsonText (VArr vs) @ rest"
    have inp: "?inp = (pre @ [ch CHR ''['']) @ ?body @ ch CHR '']'' # rest"
      by (simp add: str_simps)
    obtain n where n: "parseArrayLoop n ?inp (length pre + 1) []
        = Some (Inr (JArray ([] @ map decoded vs), (length pre + 1) + length ?body + 1))"
      using parseArrayLoop_text [OF all st closes_noLeadingBlank [OF rest] inp, of "length pre + 1" "[]"]
      by auto
    have tok: "currentToken ?inp (length pre) = Some (ch CHR ''['')"
      by (rule currentToken_at [of _ pre _ "?body @ ch CHR '']'' # rest"]) (simp_all add: str_simps)
    have "noLeadingBlank (?body @ ch CHR '']'' # rest)"
      using st VArr.prems(1)
      by (cases vs) (simp_all add: joinComma_Cons startsValue_append)
    then have skip: "skipSpaces ?inp (length pre + 1) = length pre + 1"
      using inp by (intro skipSpaces_stay [of _ _ "pre @ [ch CHR ''['']"]) simp_all
    have c1: "consume ?inp (Some (ch CHR ''['')) (length pre) = Inr (length pre + 1)"
      using consume_expected [of ?inp pre "ch CHR ''[''" "?body @ ch CHR '']'' # rest" "length pre"]
        skip by (simp add: str_simps)
    have pe: "(length pre + 1) + length ?body + 1 = length pre + length (jsonText (VArr vs))"
      by (simp add: str_simps)
    have "parseValue (Suc (Suc n)) ?inp (length pre)
        = Some (Inr (JArray ([] @ map decoded vs), (length pre + 1) + length ?body + 1))"
      using tok c1 n
      by (simp add: parseValue.simps(2) [of "Suc n"] parseArray.simps(2) [of n] char_defs)
    then have "parseValue (Suc (Suc n)) ?inp (length pre)
        = Some (Inr (decoded (VArr vs), length pre + length (jsonText (VArr vs))))"
      unfolding pe by simp
    then show "\<exists>n. parseValue n ?inp (length pre)
        = Some (Inr (decoded (VArr vs), length pre + length (jsonText (VArr vs))))"
      by blast
  qed
next
  case (VObj ts es)
  let ?pt = "\<lambda>(k, v). QUOTE # k @ QUOTE # ch CHR '':'' # jsonText v"
  have keys: "list_all (\<lambda>(k, v). validKey k) es"
    using VObj.prems(1) by (auto simp: list_all_iff)
  have all: "list_all (\<lambda>(k, v). plainText k \<and> noLeadingBlank k \<and> parsesTo v \<and>
             startsValue (jsonText v)) es"
    unfolding list_all_iff
  proof (intro ballI)
    fix e assume e: "e \<in> set es"
    obtain k v where kv: "e = (k, v)" by (cases e)
    from VObj.prems e kv have rt: "roundTrips v" "distinctKeys v" "validKey k"
      by (auto simp: list_all_iff)
    have "parsesTo v" using VObj.IH [of e v] e kv rt by simp
    with rt kv show "case e of (k, v) \<Rightarrow> plainText k \<and> noLeadingBlank k \<and> parsesTo v \<and>
             startsValue (jsonText v)"
      by (simp add: validKey_def roundTrips_startsValue)
  qed
  have same: "setAll (JObject []) (map (\<lambda>(k, v). (k, decoded v)) es)
      = JObject (map (\<lambda>(k, v). (k, decoded v)) es)"
  proof -
    let ?f = "\<lambda>(k, v). (k, decoded v)"
    have fo: "fst \<circ> ?f = fst" by (auto simp: fun_eq_iff)
    have d: "distinct (map fst (map ?f es))"
      using VObj.prems(2) by (simp add: fo)
    have p: "\<forall>k \<in> fst ` set (map ?f es). k \<noteq> str ''__proto__''"
      using keys by (auto simp: list_all_iff validKey_def)
    have "setAll (JObject []) (map ?f es) = JObject ([] @ map ?f es)"
      using d p by (rule setAll_distinct) simp
    then show ?thesis by simp
  qed
  show ?case
    unfolding parsesTo_def
  proof (intro allI impI)
    fix pre rest
    assume rest: "closes rest"
    let ?body = "joinComma (map ?pt es)"
    let ?inp = "pre @ jsonText (VObj ts es) @ rest"
    have inp: "?inp = (pre @ [ch CHR ''{'']) @ ?body @ ch CHR ''}'' # rest"
      by (simp add: str_simps)
    obtain n where n: "parseObjectLoop n ?inp (length pre + 1) (JObject [])
        = Some (Inr (setAll (JObject []) (map (\<lambda>(k, v). (k, decoded v)) es),
             (length pre + 1) + length ?body + 1))"
      using parseObjectLoop_text [OF all closes_noLeadingBlank [OF rest] inp, of "length pre + 1" "JObject []"]
      by auto
    have tok: "currentToken ?inp (length pre) = Some (ch CHR ''{'')"
      by (rule currentToken_at [of _ pre _ "?body @ ch CHR ''}'' # rest"]) (simp_all add: str_simps)
    have "noLeadingBlank (?body @ ch CHR ''}'' # rest)"
      using VObj.prems(1) not_blank_QUOTE
      by (cases es) (auto simp: joinComma_Cons noLeadingBlank_def)
    then have skip: "skipSpaces ?inp (length pre + 1) = length pre + 1"
      using inp by (intro skipSpaces_stay [of _ _ "pre @ [ch CHR ''{'']"]) simp_all
    have c1: "consume ?inp (Some (ch CHR ''{'')) (length pre) = Inr (length pre + 1)"
      using consume_expected [of ?inp pre "ch CHR ''{''" "?body @ ch CHR ''}'' # rest" "length pre"]
        skip by (simp add: str_simps)
    have pe: "(length pre + 1) + length ?body + 1 = length pre + length (jsonText (VObj ts es))"
      by (simp add: str_simps)
    have "parseValue (Suc (Suc n)) ?inp (length pre)
        = Some (Inr (setAll (JObject []) (map (\<lambda>(k, v). (k, decoded v)) es),
             (length pre + 1) + length ?body + 1))"
      using tok c1 n
      by (simp add: parseValue.simps(2) [of "Suc n"] parseObject.simps(2) [of n] char_defs)
    then have "parseValue (Suc (Suc n)) ?inp (length pre)
        = Some (Inr (decoded (VObj ts es), length pre + length (jsonText (VObj ts es))))"
      unfolding pe same by simp
    then show "\<exists>n. parseValue n ?inp (length pre)
        = Some (Inr (decoded (VObj ts es), length pre + length (jsonText (VObj ts es))))"
      by blast
  qed
qed simp_all

lemma decode_whole:
  assumes "parseValue n inp 0 = Some (Inr (r, length inp))"
    and "currentToken inp 0 = Some c" and "\<not> isWhiteSpace c"
  shows "decode n inp = Some (Inr r)"
proof -
  have start: "consumeWhitespace inp 0 = 0"
    using assms(2,3) by (intro consumeWhitespace_stay) simp
  have fin: "consumeWhitespace inp (length inp) = length inp"
    by (rule consumeWhitespace_stay) (simp add: currentToken_def)
  show ?thesis
    using assms(1) start fin by (simp add: decode_def parse_def hasNext_def currentToken_def)
qed

lemma container_text:
  "isContainer v \<Longrightarrow>
   \<exists>c. currentToken (jsonText v) 0 = Some c \<and> \<not> isWhiteSpace c"
  by (cases v) (auto simp: currentToken_def isWhiteSpace_def ch_def)


lemma map_of_updateEntry: "map_of (updateEntry k v obj) = (map_of obj)(k \<mapsto> v)"
  by (induction obj) (auto simp: fun_eq_iff)

lemma map_of_setAll:
  "\<forall>k \<in> fst ` set kvs. k \<noteq> str ''__proto__'' \<Longrightarrow>
   map_of (ownProperties (setAll (JObjectWith pr obj) kvs)) = map_of obj ++ map_of (rev kvs)"
proof (induction kvs arbitrary: obj)
  case Nil
  show ?case by simp
next
  case (Cons kv kvs)
  obtain k v where kv: "kv = (k, v)" by (cases kv)
  have sp: "setProperty (JObjectWith pr obj) k v = JObjectWith pr (updateEntry k v obj)"
    using Cons.prems kv by simp
  have "map_of (ownProperties (setAll (JObjectWith pr (updateEntry k v obj)) kvs))
      = map_of (updateEntry k v obj) ++ map_of (rev kvs)"
    using Cons.prems by (intro Cons.IH) simp
  then show ?case
    using kv sp
    by (simp add: map_of_updateEntry map_add_upd_left fun_eq_iff map_add_def split: option.splits)
qed


subsection \<open>Assignments in order\<close>

lemma setAll_append: "setAll obj (kvs @ ms) = setAll (setAll obj kvs) ms"
  by (induction kvs arbitrary: obj) auto

lemma parseObjectLoop_members:
  "parseObjectLoop n inp pos (setAll obj kvs)
     = bindP (readMembers n inp pos kvs) (\<lambda>ms p. Some (Inr (setAll obj ms, p)))"
proof (induction n arbitrary: pos kvs)
  case 0
  show ?case by (simp add: parseObjectLoop.simps)
next
  case (Suc n)
  have step: "setProperty (setAll obj kvs) key v = setAll obj (kvs @ [(key, v)])" for key v
    by (simp add: setAll_append)
  show ?case
  proof (cases "currentToken inp pos = Some (ch CHR ''}'')")
    case True
    then show ?thesis
      by (cases "consume inp (Some (ch CHR ''}'')) pos") (simp_all add: parseObjectLoop.simps)
  next
    case False
    show ?thesis
    proof (cases "parsePair n inp pos")
      case None
      with False show ?thesis by (simp add: parseObjectLoop.simps)
    next
      case (Some r)
      show ?thesis
      proof (cases r)
        case (Inl e)
        with Some False show ?thesis by (simp add: parseObjectLoop.simps)
      next
        case (Inr vp)
        obtain key v p where vp: "vp = ((key, v), p)" by (cases vp) auto
        show ?thesis
          using False Some Inr vp Suc.IH [of _ "kvs @ [(key, v)]"]
          by (cases "consume inp (Some (ch CHR '','')) p")
             (simp_all add: parseObjectLoop.simps step)
      qed
    qed
  qed
qed

lemma setProperty_other:
  "k \<noteq> str ''__proto__'' \<Longrightarrow>
   map_of (ownProperties (setProperty (JObjectWith pr es) key v)) k
     = (if key = k then Some v else map_of es k)"
  by (auto simp: map_of_updateEntry split: JsonValue.splits)

lemma setProperty_object:
  "\<exists>pr' es'. setProperty (JObjectWith pr es) key v = JObjectWith pr' es'"
  by (auto split: JsonValue.splits)

lemma setAll_last_wins:
  "k \<noteq> str ''__proto__'' \<Longrightarrow>
   map_of (ownProperties (setAll (JObjectWith pr es) kvs)) k = (map_of es ++ map_of (rev kvs)) k"
proof (induction kvs arbitrary: pr es)
  case Nil
  show ?case by simp
next
  case (Cons kv kvs)
  obtain key v where kv: "kv = (key, v)" by (cases kv)
  obtain pr' es' where o: "setProperty (JObjectWith pr es) key v = JObjectWith pr' es'"
    using setProperty_object by blast
  have m: "map_of es' k = (if key = k then Some v else map_of es k)"
    using setProperty_other [OF Cons.prems, of pr es key v] o by simp
  have "map_of (ownProperties (setAll (JObjectWith pr' es') kvs)) k
      = (map_of es' ++ map_of (rev kvs)) k"
    using Cons.prems by (rule Cons.IH)
  then show ?case
    using kv o m by (auto simp: map_add_def split: option.splits)
qed


section \<open>The encoder on the inputs of the specification\<close>

text \<open>
  Claim C2. The specification has every boolean emitted as the quoted string \<open>"true"\<close> or
  \<open>"false"\<close>. In the code the numeric test of \<open>encodeValue\<close> comes before the switch on
  \<open>typeof\<close>, and \<open>+true\<close> and \<open>+false\<close> are numbers: the boolean itself is returned and the
  container appends it bare. The array \<open>[true, false]\<close> encodes to \<open>[true,false]\<close>.
\<close>

theorem encode_boolean_bare:
  \<open>encode (VArr [VBool True, VBool False]) = Inr (VStr (str ''[true,false]''))\<close>
  by (simp add: encode_def str_simps)

text \<open>
  Claim C3. The specification has \<open>encode([1, () => 2, 3])\<close> yield \<open>[1,3]\<close>. The code calls
  the function and encodes its result in its place: the text is not \<open>[1,3]\<close>.
\<close>

theorem encode_callable_not_dropped:
  \<open>encode (VArr [VNum 1, VFun (str ''() => 2'') (VNum 2), VNum 3]) \<noteq> Inr (VStr (str ''[1,3]''))\<close>
  by code_simp

text \<open>
  Claim C3, amended. For every callable returning \<open>2\<close> whose text is not a numeric literal
  (the text of a function is its source), \<open>encode\<close> of \<open>[1, f, 3]\<close> is exactly \<open>[1,2,3]\<close>:
  the callable is invoked and its result is encoded in its place.
\<close>

theorem encode_callable_resolved:
  \<open>\<not> stringIsNumeric src \<Longrightarrow>
   encode (VArr [VNum 1, VFun src (VNum 2), VNum 3]) = Inr (VStr (str ''[1,2,3]''))\<close>
  by (simp add: encode_def str_simps numberToString_def digitsOf.simps ch_def)

theorem encode_callable_resolved_witness:
  \<open>\<not> stringIsNumeric (str ''() => 2'') \<and>
   encode (VArr [VNum 1, VFun (str ''() => 2'') (VNum 2), VNum 3]) = Inr (VStr (str ''[1,2,3]''))\<close>
proof -
  have h: "\<not> stringIsNumeric (str ''() => 2'')" by code_simp
  show ?thesis using h encode_callable_resolved [OF h] by simp
qed

text \<open>
  Claim C4. The specification has an empty container still emit its closing bracket. In
  the code the closing bracket is appended inside the loop, after the last element: with
  no element the loop body never runs, and \<open>encode\<close> of the empty array is \<open>[\<close> and of the
  empty plain object is \<open>{\<close>.
\<close>

theorem encode_empty_container_unclosed:
  \<open>encode (VArr []) = Inr (VStr (str ''['')) \<and> encode (plainObject []) = Inr (VStr (str ''{''))\<close>
  by code_simp

text \<open>
  Claim C6. The specification has \<open>encode\<close> reject a top-level \<open>null\<close>. The guard of
  \<open>encode\<close> asks \<open>typeof input !== 'object'\<close>, and \<open>typeof null\<close> is \<open>'object'\<close>: \<open>null\<close>
  passes the guard and \<open>encode\<close> returns the text \<open>null\<close>.
\<close>

theorem encode_null_accepted:
  \<open>encode VNull = Inr (VStr (str ''null''))\<close>
  by (simp add: encode_def)

lemma encode_rejects_scalars:
  "encode (VNum n) = Inl InvalidInput" "encode VNaN = Inl InvalidInput"
  "encode (VStr s) = Inl InvalidInput" "encode (VBool b) = Inl InvalidInput"
  "encode VUndefined = Inl InvalidInput" "encode (VFun src r) = Inl InvalidInput"
  by (simp_all add: encode_def)

section \<open>The parser on the inputs of the specification\<close>

text \<open>
  Claim C7. The specification has a \<open>\u\<close> escape whose four characters are not all
  hexadecimal digits fail. \<open>parseInt\<close> reads the longest hexadecimal prefix, so the check
  \<open>isNaN(code)\<close> passes as soon as the first character is a digit: the string literal
  \<open>"\u12xy"\<close> decodes to the one code unit \<open>0x12\<close>.
\<close>

theorem decode_unicode_escape_prefix:
  \<open>decode 3 (QUOTE # BACKSLASH # str ''u12xy"'') = Some (Inr (JString [0x12]))\<close>
  by code_simp

lemma decode_unicode_escape_example:
  \<open>decode 3 (QUOTE # BACKSLASH # str ''u0041"'') = Some (Inr (JString (str ''A'')))\<close>
  by code_simp

text \<open>
  Claim C8. The specification has \<open>decode('007')\<close> fail with the error of \<open>parseDigits\<close>.
  It does not.
\<close>

theorem decode_007_not_invalid_number:
  \<open>\<not> failsWith InvalidNumber (decode 2 (str ''007''))\<close>
  by code_simp

text \<open>
  Claim C8, amended. \<open>decode('007')\<close> fails with the error of \<open>parse\<close> for a token left
  after the value, at position 1: the integer sub-rule takes the first \<open>0\<close> alone as the
  number, and \<open>07\<close> remains. This holds with any fuel that lets \<open>parseValue\<close> start.
\<close>

theorem decode_007_trailing_characters:
  \<open>decode (Suc (Suc k)) (str ''007'') = Some (Inl (TrailingCharacters, 1))\<close>
  by (simp add: parser_eval parseValue.simps)

text \<open>
  Claim C5. The specification has a string literal that reaches the end of the input
  fail with an error. The loop of \<open>parseString\<close> tests only for the closing quote: past the
  end the current token is the empty string, the loop appends it and increments the
  position, for ever. For every input that opens a string and has neither a quote nor a
  backslash after it, \<open>decode\<close> returns nothing, whatever the fuel.
\<close>

theorem decode_unterminated_string_diverges:
  "QUOTE \<notin> set body \<Longrightarrow> BACKSLASH \<notin> set body \<Longrightarrow> decode n (QUOTE # body) = None"
proof (cases n)
  case 0
  then show ?thesis by (simp add: decode_def parse_def parseValue.simps)
next
  case (Suc m)
  assume q: "QUOTE \<notin> set body" and b: "BACKSLASH \<notin> set body"
  let ?inp = "QUOTE # body"
  have start: "consumeWhitespace ?inp 0 = 0"
    by (subst consumeWhitespace.simps) (simp add: token_defs isWhiteSpace_def)
  have "1 \<le> skipSpaces ?inp 1" by (rule skipSpaces_ge)
  then have "set (drop (skipSpaces ?inp 1) ?inp) \<subseteq> set (drop 1 ?inp)"
    by (rule set_drop_subset_set_drop)
  with q b have "parseStringLoop m ?inp (skipSpaces ?inp 1) [] = None"
    by (intro parseStringLoop_runs_past_end) auto
  then have "parseString m ?inp 0 = None"
    by (simp add: parseString_def consume_def currentToken_def)
  then show ?thesis
    using Suc start
    by (simp add: decode_def parse_def parseValue.simps currentToken_def ch_def QUOTE_def)
qed

theorem decode_unterminated_string_diverges_witness:
  \<open>QUOTE \<notin> set (str ''abc'') \<and> BACKSLASH \<notin> set (str ''abc'') \<and>
   (\<forall>n. decode n (str ''"abc'') = None)\<close>
proof -
  have q: "QUOTE \<notin> set (str ''abc'')" and b: "BACKSLASH \<notin> set (str ''abc'')"
    by (simp_all add: str_simps token_defs)
  have \<open>decode n (str ''"abc'') = None\<close> for n
    using decode_unterminated_string_diverges [OF q b, of n] by (simp add: str_simps token_defs)
  with q b show ?thesis by blast
qed


text \<open>
  Claim C10. The claim has the blanks after any escape sequence dropped. After a \<open>\u\<close>
  escape the code adds 4 to the position and skips nothing: the blank is kept.
\<close>

theorem decode_unicode_escape_keeps_blank:
  \<open>decode 9 (QUOTE # BACKSLASH # str ''u0041 b"'') = Some (Inr (JString (str ''A b'')))\<close>
  by code_simp

text \<open>
  Claim C10, amended. Blanks (space, tab, newline, carriage return) that follow the
  opening quote of a string literal, or a one-character escape sequence inside it, are
  dropped from the decoded string, because \<open>consume\<close> skips them; blanks that follow a
  \<open>\u\<close> escape of four hexadecimal digits are kept.
\<close>

theorem decode_string_blanks:
  assumes ws: "list_all isBlank ws"
    and pre: "plainText pre" "noLeadingBlank pre"
    and body: "plainText body" "noLeadingBlank body"
    and esc: "simpleEscape e = Some d"
    and hex: "list_all isHexDigit h" "length h = 4"
  shows "(\<exists>n. decode n (QUOTE # ws @ body @ [QUOTE]) = Some (Inr (JString body))) \<and>
         (\<exists>n. decode n (QUOTE # pre @ BACKSLASH # e # ws @ body @ [QUOTE])
               = Some (Inr (JString (pre @ d # body)))) \<and>
         (\<exists>n. decode n (QUOTE # pre @ BACKSLASH # ch CHR ''u'' # h @ ws @ body @ [QUOTE])
               = Some (Inr (JString (pre @ word_of_int (hexValue 0 h) # ws @ body))))"
proof (intro conjI)
  have nbq: "noLeadingBlank [QUOTE]" "noLeadingBlank []"
    by (simp_all add: noLeadingBlank_def not_blank_QUOTE)
  have nbs: "\<not> isBlank BACKSLASH" by (simp add: isBlank_def char_defs)
  show "\<exists>n. decode n (QUOTE # ws @ body @ [QUOTE]) = Some (Inr (JString body))"
  proof -
    have "parseString (length body + Suc 0) (QUOTE # ws @ body @ [QUOTE]) 0
        = Some (Inr (body, 0 + length ws + length body + 2))"
      using ws body nbq(2) by (rule parseString_plain [of _ _ _ _ "[]"]) simp_all
    then have "parseString (length body + Suc 0) (QUOTE # ws @ body @ [QUOTE]) 0
        = Some (Inr (body, Suc (length (ws @ body @ [QUOTE]))))" by simp
    then show ?thesis by (blast dest: decode_string_literal)
  qed
  show "\<exists>n. decode n (QUOTE # pre @ BACKSLASH # e # ws @ body @ [QUOTE])
      = Some (Inr (JString (pre @ d # body)))"
  proof -
    let ?t = "pre @ BACKSLASH # e # ws @ body"
    let ?inp = "QUOTE # ?t @ [QUOTE]"
    let ?n = "length pre + Suc (length body + Suc 0)"
    have start: "skipSpaces ?inp 1 = 1"
      using noLeadingBlank_append [OF pre(2) nbs, of "e # ws @ body @ [QUOTE]"]
      by (intro skipSpaces_stay [of _ _ "[QUOTE]"]) simp_all
    have "parseStringLoop ?n ?inp 1 []
        = parseStringLoop (Suc (length body + Suc 0)) ?inp (1 + length pre) ([] @ pre)"
      by (rule parseStringLoop_plain [OF pre(1), of _ "[QUOTE]"]) simp_all
    also have "\<dots> = parseStringLoop (length body + Suc 0) ?inp (1 + length pre + 2 + length ws)
        (([] @ pre) @ [d])"
      using esc ws noLeadingBlank_append [OF body(2) not_blank_QUOTE, of "[]"]
      by (rule parseStringLoop_escape [of _ _ _ _ _ "QUOTE # pre"]) simp_all
    also have "\<dots> = parseStringLoop (Suc 0) ?inp (1 + length pre + 2 + length ws + length body)
        ((([] @ pre) @ [d]) @ body)"
      by (rule parseStringLoop_plain [OF body(1), of _ "QUOTE # pre @ BACKSLASH # e # ws"])
         simp_all
    also have "\<dots> = Some (Inr (((([] @ pre) @ [d]) @ body),
        1 + length pre + 2 + length ws + length body))"
      by (rule parseStringLoop_quote [of _ "QUOTE # ?t" "[]"]) simp_all
    finally have "parseStringLoop ?n ?inp 1 [] = Some (Inr (pre @ d # body, Suc (length ?t)))"
      by simp
    with start have "parseString ?n ?inp 0 = Some (Inr (pre @ d # body, Suc (length (?t @ [QUOTE]))))"
      by (intro parseString_closed) simp_all
    then have "decode (Suc ?n) ?inp = Some (Inr (JString (pre @ d # body)))"
      by (rule decode_string_literal)
    then show ?thesis by auto
  qed
  show "\<exists>n. decode n (QUOTE # pre @ BACKSLASH # ch CHR ''u'' # h @ ws @ body @ [QUOTE])
      = Some (Inr (JString (pre @ word_of_int (hexValue 0 h) # ws @ body)))"
  proof -
    let ?t = "pre @ BACKSLASH # ch CHR ''u'' # h @ ws @ body"
    let ?inp = "QUOTE # ?t @ [QUOTE]"
    let ?c = "word_of_int (hexValue 0 h) :: code_unit"
    let ?n = "length pre + Suc (length (ws @ body) + Suc 0)"
    have tail: "plainText (ws @ body)"
      using blank_plain [OF ws] body(1) by (rule plainText_append)
    have start: "skipSpaces ?inp 1 = 1"
      using noLeadingBlank_append [OF pre(2) nbs, of "ch CHR ''u'' # h @ ws @ body @ [QUOTE]"]
      by (intro skipSpaces_stay [of _ _ "[QUOTE]"]) simp_all
    have "parseStringLoop ?n ?inp 1 []
        = parseStringLoop (Suc (length (ws @ body) + Suc 0)) ?inp (1 + length pre) ([] @ pre)"
      by (rule parseStringLoop_plain [OF pre(1), of _ "[QUOTE]"]) simp_all
    also have "\<dots> = parseStringLoop (length (ws @ body) + Suc 0) ?inp (1 + length pre + 6)
        (([] @ pre) @ [?c])"
      using hex by (rule parseStringLoop_unicode [of _ _ "QUOTE # pre"]) simp_all
    also have "\<dots> = parseStringLoop (Suc 0) ?inp (1 + length pre + 6 + length (ws @ body))
        ((([] @ pre) @ [?c]) @ (ws @ body))"
      using hex(2)
      by (intro parseStringLoop_plain [OF tail, of _ "QUOTE # pre @ BACKSLASH # ch CHR ''u'' # h"])
         simp_all
    also have "\<dots> = Some (Inr (((([] @ pre) @ [?c]) @ (ws @ body)),
        1 + length pre + 6 + length (ws @ body)))"
      using hex(2) by (intro parseStringLoop_quote [of _ "QUOTE # ?t" "[]"]) simp_all
    finally have "parseStringLoop ?n ?inp 1 []
        = Some (Inr (pre @ ?c # ws @ body, Suc (length ?t)))"
      using hex(2) by simp
    with start have "parseString ?n ?inp 0
        = Some (Inr (pre @ ?c # ws @ body, Suc (length (?t @ [QUOTE]))))"
      by (intro parseString_closed) simp_all
    then have "decode (Suc ?n) ?inp = Some (Inr (JString (pre @ ?c # ws @ body)))"
      by (rule decode_string_literal)
    then show ?thesis by auto
  qed
qed

theorem decode_string_blanks_witness:
  \<open>list_all isBlank (str '' '') \<and> plainText (str ''x'') \<and> noLeadingBlank (str ''x'') \<and>
   plainText (str ''y'') \<and> noLeadingBlank (str ''y'') \<and>
   simpleEscape (ch CHR ''n'') = Some 0x0A \<and>
   list_all isHexDigit (str ''0041'') \<and> length (str ''0041'') = 4 \<and>
   (\<exists>n. decode n (str ''" y"'') = Some (Inr (JString (str ''y'')))) \<and>
   (\<exists>n. decode n (QUOTE # str ''x'' @ BACKSLASH # str ''n y"'')
        = Some (Inr (JString (str ''x'' @ 0x0A # str ''y'')))) \<and>
   (\<exists>n. decode n (QUOTE # str ''x'' @ BACKSLASH # str ''u0041 y"'')
        = Some (Inr (JString (str ''xA y''))))\<close>
proof -
  have ws: "list_all isBlank (str '' '')" by (simp add: str_simps isBlank_def)
  have pre: "plainText (str ''x'')" "noLeadingBlank (str ''x'')"
    by (simp_all add: str_simps plainText_def noLeadingBlank_def isBlank_def char_defs)
  have body: "plainText (str ''y'')" "noLeadingBlank (str ''y'')"
    by (simp_all add: str_simps plainText_def noLeadingBlank_def isBlank_def char_defs)
  have esc: "simpleEscape (ch CHR ''n'') = Some 0x0A"
    by (simp add: simpleEscape_def char_defs)
  have hex: "list_all isHexDigit (str ''0041'')" "length (str ''0041'') = 4"
    by (simp_all add: str_simps isHexDigit_def isDecimalDigit_def char_defs)
  show ?thesis
    using decode_string_blanks [OF ws pre body esc hex] ws pre body esc hex
    by (simp add: str_simps char_defs hexDigitValue_def isDecimalDigit_def)
qed

lemma decode_blank_examples:
  \<open>decode 3 (str ''" a"'') = Some (Inr (JString (str ''a'')))\<close>
  \<open>decode 6 (QUOTE # str ''x'' @ BACKSLASH # str ''n y"'') = Some (Inr (JString [ch CHR ''x'', 0x0A, ch CHR ''y'']))\<close>
  by code_simp+


text \<open>
  Claim C9. The claim has every object input with a repeated key keep the last value of
  the key. The key \<open>__proto__\<close> is not kept at all: the assignment \<open>obj[key] = value\<close>
  reaches the accessor of \<open>Object.prototype\<close>, which stores no property, and the object
  text with two \<open>__proto__\<close> members decodes to the empty object.
\<close>

theorem decode_proto_key_not_stored:
  \<open>decode 20 (str ''{"__proto__":1,"__proto__":2}'') = Some (Inr (JObject []))\<close>
  by code_simp

text \<open>
  Claim C9, amended. For every input whose first token opens an object, \<open>decode\<close> does
  what reading the members of the object text does, then assigns them in order: it
  fails, or does not return, exactly when reading the members does or when a token
  follows the object, so that a repeated key raises no error; otherwise it returns the
  object the assignments build. In that object every key other than \<open>__proto__\<close> maps
  to the value of its last occurrence (\<open>map_of\<close> of the reversed list of members finds
  the last pair of a key first).
\<close>

theorem decode_duplicate_keys_last_wins:
  assumes "currentToken inp (consumeWhitespace inp 0) = Some (ch CHR ''{'')"
  shows "decode (Suc (Suc n)) inp =
           (case objectMembers n inp of
              None \<Rightarrow> None
            | Some (Inl e) \<Rightarrow> Some (Inl e)
            | Some (Inr (kvs, p)) \<Rightarrow>
                (case hasNext inp (consumeWhitespace inp p) of
                   (True, p') \<Rightarrow> Some (Inl (TrailingCharacters, p'))
                 | (False, p') \<Rightarrow> Some (Inr (setAll (JObject []) kvs)))) \<and>
         (\<forall>kvs k. k \<noteq> str ''__proto__'' \<longrightarrow>
            map_of (ownProperties (setAll (JObject []) kvs)) k = map_of (rev kvs) k)"
proof (intro conjI allI impI)
  let ?p0 = "consumeWhitespace inp 0"
  have loop: "parseObjectLoop n inp p (JObject [])
      = bindP (readMembers n inp p []) (\<lambda>ms q. Some (Inr (setAll (JObject []) ms, q)))" for p
    using parseObjectLoop_members [of n inp p "JObject []" "[]"] by simp
  have pv: "parseValue (Suc (Suc n)) inp ?p0
      = bindC (consume inp (Some (ch CHR ''{'')) ?p0) (\<lambda>p.
          bindP (readMembers n inp p []) (\<lambda>ms q. Some (Inr (setAll (JObject []) ms, q))))"
    using assms by (simp add: parseValue.simps(2) [of "Suc n"] parseObject.simps(2) [of n] loop)
  show "decode (Suc (Suc n)) inp =
           (case objectMembers n inp of
              None \<Rightarrow> None
            | Some (Inl e) \<Rightarrow> Some (Inl e)
            | Some (Inr (kvs, p)) \<Rightarrow>
                (case hasNext inp (consumeWhitespace inp p) of
                   (True, p') \<Rightarrow> Some (Inl (TrailingCharacters, p'))
                 | (False, p') \<Rightarrow> Some (Inr (setAll (JObject []) kvs))))"
  proof (cases "consume inp (Some (ch CHR ''{'')) ?p0")
    case (Inl e)
    then show ?thesis by (simp add: decode_def parse_def pv objectMembers_def)
  next
    case (Inr p)
    show ?thesis
    proof (cases "readMembers n inp p []")
      case None
      with Inr show ?thesis by (simp add: decode_def parse_def pv objectMembers_def)
    next
      case (Some r)
      with Inr show ?thesis
        by (cases r) (auto simp: decode_def parse_def pv objectMembers_def)
    qed
  qed
next
  fix kvs :: "(jsstring \<times> JsonValue) list" and k :: jsstring
  assume "k \<noteq> str ''__proto__''"
  then show "map_of (ownProperties (setAll (JObject []) kvs)) k = map_of (rev kvs) k"
    using setAll_last_wins [of k ObjectPrototype "[]" kvs] by simp
qed

theorem decode_duplicate_keys_last_wins_witness:
  \<open>currentToken (str ''{"a":1,"a":2}'') (consumeWhitespace (str ''{"a":1,"a":2}'') 0)
     = Some (ch CHR ''{'') \<and>
   objectMembers 7 (str ''{"a":1,"a":2}'')
     = Some (Inr ([(str ''a'', JNumber 1), (str ''a'', JNumber 2)], 13)) \<and>
   decode 9 (str ''{"a":1,"a":2}'') = Some (Inr (JObject [(str ''a'', JNumber 2)])) \<and>
   map_of (ownProperties (setAll (JObject []) [(str ''a'', JNumber 1), (str ''a'', JNumber 2)]))
     (str ''a'') = Some (JNumber 2)\<close>
proof -
  let ?inp = \<open>str ''{"a":1,"a":2}''\<close>
  let ?kvs = "[(str ''a'', JNumber 1), (str ''a'', JNumber 2)]"
  have h: "currentToken ?inp (consumeWhitespace ?inp 0) = Some (ch CHR ''{'')"
    by code_simp
  have m: "objectMembers 7 ?inp = Some (Inr (?kvs, 13))"
    by code_simp
  have t: "hasNext ?inp (consumeWhitespace ?inp 13) = (False, 13)"
    by code_simp
  have s: "setAll (JObject []) ?kvs = JObject [(str ''a'', JNumber 2)]"
    by code_simp
  have a: "str ''a'' \<noteq> str ''__proto__''"
    by code_simp
  have n9: "(9::nat) = Suc (Suc 7)" by simp
  from decode_duplicate_keys_last_wins [OF h, of 7]
  have d: "decode 9 ?inp = Some (Inr (JObject [(str ''a'', JNumber 2)]))"
    and l: "map_of (ownProperties (setAll (JObject []) ?kvs)) (str ''a'')
          = map_of (rev ?kvs) (str ''a'')"
    unfolding n9 [symmetric] using a by (simp_all add: m t s)
  from l have "map_of (ownProperties (setAll (JObject []) ?kvs)) (str ''a'') = Some (JNumber 2)"
    by simp
  with h m d show ?thesis by (intro conjI)
qed


text \<open>
  The object texts written with plain keys and values of the round trip are read
  without error, whether keys repeat or not.
\<close>

lemma decode_plain_object_text:
  assumes "list_all (\<lambda>(k, v). validKey k \<and> roundTrips v \<and> distinctKeys v) es"
  shows "\<exists>n obj. decode n (jsonText (plainObject es)) = Some (Inr (JObject obj)) \<and>
           map_of obj = map_of (rev (map (\<lambda>(k, v). (k, decoded v)) es))"
proof -
  let ?pt = "\<lambda>(k, v). QUOTE # k @ QUOTE # ch CHR '':'' # jsonText v"
  let ?f = "\<lambda>(k, v). (k, decoded v)"
  let ?body = "joinComma (map ?pt es)"
  let ?inp = "jsonText (plainObject es)"
  have all: "list_all (\<lambda>(k, v). plainText k \<and> noLeadingBlank k \<and> parsesTo v \<and>
             startsValue (jsonText v)) es"
    using assms
    by (auto simp: list_all_iff validKey_def roundTrips_startsValue roundTrips_parsesTo)
  have inp: "?inp = [ch CHR ''{''] @ ?body @ ch CHR ''}'' # []"
    by (simp add: plainObject_def str_simps)
  have nb: "noLeadingBlank []" by (simp add: noLeadingBlank_def)
  obtain n where n: "parseObjectLoop n ?inp 1 (JObject [])
      = Some (Inr (setAll (JObject []) (map ?f es), 1 + length ?body + 1))"
    using parseObjectLoop_text [OF all nb inp, of 1 "JObject []"] by auto
  have tok: "currentToken ?inp 0 = Some (ch CHR ''{'')"
    by (simp add: plainObject_def currentToken_def)
  have "noLeadingBlank (?body @ [ch CHR ''}''])"
    using not_blank_QUOTE
    by (cases es) (auto simp: joinComma_Cons noLeadingBlank_def isBlank_def ch_def)
  then have skip: "skipSpaces ?inp 1 = 1"
    using inp by (intro skipSpaces_stay [of _ _ "[ch CHR ''{'']"]) simp_all
  have c1: "consume ?inp (Some (ch CHR ''{'')) 0 = Inr 1"
    using tok skip by (simp add: consume_def)
  have pe: "1 + length ?body + 1 = length ?inp"
    by (simp add: plainObject_def str_simps)
  have "parseValue (Suc (Suc n)) ?inp 0
      = Some (Inr (setAll (JObject []) (map ?f es), 1 + length ?body + 1))"
    using tok c1 n
    by (simp add: parseValue.simps(2) [of "Suc n"] parseObject.simps(2) [of n] char_defs)
  then have "parseValue (Suc (Suc n)) ?inp 0
      = Some (Inr (setAll (JObject []) (map ?f es), length ?inp))"
    unfolding pe .
  moreover have "\<not> isWhiteSpace (ch CHR ''{'')" by (simp add: isWhiteSpace_def ch_def)
  ultimately have d: "decode (Suc (Suc n)) ?inp = Some (Inr (setAll (JObject []) (map ?f es)))"
    using tok by (intro decode_whole)
  have np: "\<forall>k \<in> fst ` set (map ?f es). k \<noteq> str ''__proto__''"
    using assms by (auto simp: list_all_iff validKey_def)
  obtain obj where obj: "setAll (JObject []) (map ?f es) = JObject obj"
  proof -
    have "\<exists>obj. setAll (JObjectWith pr acc) kvs = JObjectWith pr obj"
      if "\<forall>k \<in> fst ` set kvs. k \<noteq> str ''__proto__''" for pr acc kvs
      using that by (induction kvs arbitrary: acc) auto
    from this [OF np] that show ?thesis by blast
  qed
  have "map_of (ownProperties (setAll (JObject []) (map ?f es)))
      = map_of [] ++ map_of (rev (map ?f es))"
    using np by (rule map_of_setAll)
  then have "map_of obj = map_of (rev (map ?f es))" by (simp add: obj)
  with d obj show ?thesis by auto
qed


text \<open>
  An assignment to \<open>__proto__\<close> replaces the prototype when the value is \<open>null\<close>, an
  object or an array; on an object without a prototype it is an ordinary assignment.
\<close>

lemma decode_proto_examples:
  \<open>decode 20 (str ''{"__proto__":null,"__proto__":2}'')
     = Some (Inr (JObjectWith NullPrototype [(str ''__proto__'', JNumber 2)]))\<close>
  \<open>decode 20 (str ''{"__proto__":{"a":1},"b":2}'')
     = Some (Inr (JObjectWith (Prototype (JObject [(str ''a'', JNumber 1)]))
                    [(str ''b'', JNumber 2)]))\<close>
  by code_simp+

lemma decode_duplicate_example:
  \<open>decode 8 (str ''{"a":1,"a":2}'') = Some (Inr (JObject [(str ''a'', JNumber 2)]))\<close>
  by code_simp

section \<open>The round trip\<close>

text \<open>
  Claim C1. The specification has \<open>decode(encode(v))\<close> succeed for every value built from
  \<open>null\<close>, numbers, strings, booleans, arrays and mappings. The encoder writes a string
  between quotes without escaping: the array with the one string \<open>a"b\<close> encodes to
  \<open>["a"b"]\<close>, which \<open>decode\<close> rejects.
\<close>

theorem round_trip_unescaped_quote_fails:
  \<open>encode (VArr [VStr (str ''a"b'')]) = Inr (VStr (str ''["a"b"]'')) \<and>
   failsWith InvalidArray (decode 8 (str ''["a"b"]''))\<close>
  by code_simp


text \<open>
  The numbers of the round trip. \<open>0.5\<close>, \<open>-2.75\<close> and \<open>1.5e-7\<close> print as number texts of
  the parser; \<open>1.05\<close> and \<open>0.05\<close> do not, because \<open>parseDigits\<close> takes a \<open>0\<close> that opens
  a run of digits as the whole run: the array \<open>[1.05]\<close> encodes to \<open>[1.05]\<close>, which
  \<open>decode\<close> rejects.
\<close>

lemma decimalToString_examples:
  \<open>decimalToString 5 (- 1) = str ''0.5''\<close>
  \<open>decimalToString (- 275) (- 2) = str ''-2.75''\<close>
  \<open>decimalToString 105 (- 2) = str ''1.05''\<close>
  \<open>decimalToString 5 (- 2) = str ''0.05''\<close>
  \<open>decimalToString 123 (- 8) = str ''0.00000123''\<close>
  \<open>decimalToString 15 (- 8) = str ''1.5e-7''\<close>
  \<open>decimalToString 1 (- 7) = str ''1e-7''\<close>
  \<open>decimalToString 1 21 = str ''1e+21''\<close>
  \<open>decimalToString 12 20 = str ''1.2e+21''\<close>
  by code_simp+

lemma roundTrips_number_examples:
  "roundTrips (VDec 5 (- 1))" "roundTrips (VDec (- 275) (- 2))" "roundTrips (VDec 15 (- 8))"
  "roundTrips (VDec 1 21)" "\<not> roundTrips (VDec 105 (- 2))" "\<not> roundTrips (VDec 5 (- 2))"
  by code_simp+

lemma round_trip_fraction_zero_fails:
  \<open>encode (VArr [VDec 105 (- 2)]) = Inr (VStr (str ''[1.05]'')) \<and>
   failsWith InvalidArray (decode 8 (str ''[1.05]''))\<close>
  by code_simp

text \<open>
  An object with an own property \<open>toString\<close> that is not a function cannot be
  converted: the numeric test of \<open>encodeValue\<close> throws. An own property \<open>valueOf\<close> that
  is not a function is passed over, and the object is encoded.
\<close>

lemma encode_own_toString_throws:
  \<open>encode (plainObject [(str ''toString'', VStr (str ''x''))]) = Inl TypeError\<close>
  by code_simp

lemma encode_own_valueOf_passed_over:
  \<open>encode (plainObject [(str ''valueOf'', VNum 1)]) = Inr (VStr (str ''{"valueOf":1}''))\<close>
  by code_simp

text \<open>
  Claim C1, amended. For every array or plain object \<open>v\<close> that is a value of the round
  trip (non-empty at every level; leaves \<open>null\<close>, integers of magnitude at most \<open>2^53\<close>,
  other finite numbers whose printed text is a number text of the parser, and strings
  that are number texts of the parser or else non-numeric, free of quotes and
  backslashes and not starting with a blank; keys valid), with distinct keys and no
  own property \<open>toString\<close>, \<open>encode\<close> returns a text and \<open>decode\<close> of that text succeeds
  with \<open>decoded v\<close>: the same arrays in the same order, the same keys with the same
  values, each numeric string replaced by its number.
\<close>

theorem round_trip_decode_encode:
  assumes "roundTrips v" and "distinctKeys v" and "inheritsToString v" and "isContainer v"
  shows "\<exists>text n. encode v = Inr (VStr text) \<and> decode n text = Some (Inr (decoded v))"
proof -
  have enc: "encodeValue v = Inr (VStr (jsonText v))"
    using encodeValue_text [OF assms(1,3)] assms(4) by simp
  have guard: "isArray v \<or> typeof v = TObject"
    using assms(4) by (cases v) simp_all
  have e: "encode v = Inr (VStr (jsonText v))"
    using enc guard by (auto simp: encode_def)
  have "closes []" by (simp add: closes_def)
  then obtain n where "parseValue n (jsonText v) 0 = Some (Inr (decoded v, length (jsonText v)))"
    using parsesToD [OF roundTrips_parsesTo [OF assms(1,2)], of "[]" "jsonText v" "[]" 0] by auto
  moreover obtain c where "currentToken (jsonText v) 0 = Some c" "\<not> isWhiteSpace c"
    using container_text [OF assms(4)] by blast
  ultimately have "decode n (jsonText v) = Some (Inr (decoded v))"
    by (rule decode_whole)
  with e show ?thesis by blast
qed

theorem round_trip_decode_encode_witness:
  \<open>roundTrips (plainObject [(str ''a'', VStr (str ''42'')),
      (str ''b'', VArr [VNull, VNum (- 12), VDec 5 (- 1), VStr (str ''x y'')])]) \<and>
   distinctKeys (plainObject [(str ''a'', VStr (str ''42'')),
      (str ''b'', VArr [VNull, VNum (- 12), VDec 5 (- 1), VStr (str ''x y'')])]) \<and>
   inheritsToString (plainObject [(str ''a'', VStr (str ''42'')),
      (str ''b'', VArr [VNull, VNum (- 12), VDec 5 (- 1), VStr (str ''x y'')])]) \<and>
   isContainer (plainObject [(str ''a'', VStr (str ''42'')),
      (str ''b'', VArr [VNull, VNum (- 12), VDec 5 (- 1), VStr (str ''x y'')])]) \<and>
   (\<exists>text n. encode (plainObject [(str ''a'', VStr (str ''42'')),
      (str ''b'', VArr [VNull, VNum (- 12), VDec 5 (- 1), VStr (str ''x y'')])])
        = Inr (VStr text) \<and>
      decode n text = Some (Inr (JObject [(str ''a'', JNumber 42),
        (str ''b'', JArray [JNull, JNumber (- 12), JNumberLit (str ''0.5''),
           JString (str ''x y'')])])))\<close>
proof -
  let ?v = "plainObject [(str ''a'', VStr (str ''42'')),
      (str ''b'', VArr [VNull, VNum (- 12), VDec 5 (- 1), VStr (str ''x y'')])]"
  have h1: "roundTrips ?v" by code_simp
  have h2: "distinctKeys ?v" by code_simp
  have h3: "inheritsToString ?v" by code_simp
  have h4: "isContainer ?v" by code_simp
  have d: "decoded ?v = JObject [(str ''a'', JNumber 42),
        (str ''b'', JArray [JNull, JNumber (- 12), JNumberLit (str ''0.5''),
           JString (str ''x y'')])]"
    by code_simp
  from round_trip_decode_encode [OF h1 h2 h3 h4] obtain out n where
    e: "encode ?v = Inr (VStr out)" and r: "decode n out = Some (Inr (decoded ?v))"
    by blast
  from e r [unfolded d] have "\<exists>text n. encode ?v = Inr (VStr text) \<and>
      decode n text = Some (Inr (JObject [(str ''a'', JNumber 42),
        (str ''b'', JArray [JNull, JNumber (- 12), JNumberLit (str ''0.5''),
           JString (str ''x y'')])]))"
    by (intro exI conjI)
  with h1 h2 h3 h4 show ?thesis by (intro conjI)
qed

lemma round_trip_example:
  \<open>encode (VArr [VDec 5 (- 1), VStr (str ''7''), VNull]) = Inr (VStr (str ''[0.5,7,null]''))\<close>
  \<open>decode 8 (str ''[0.5,7,null]'')
     = Some (Inr (JArray [JNumberLit (str ''0.5''), JNumber 7, JNull]))\<close>
  by code_simp+

end
